theory Spec2Isabelle
  imports Complex_Main
begin

section \<open>Stroke extraction from glyph outlines (getchar.py)\<close>

text \<open>
  The program reads a glyph outline as a path of line and quadratic Bezier segments,
  breaks it into contiguous sub-paths, finds the cusps of every sub-path, merges cusps
  that lie close together and connects cusps that a stroke joins.

  Points are Python complex numbers. They are modelled as exact complex numbers
  (\<^typ>\<open>complex\<close>) and lengths and angles as exact reals: rounding of the
  floating-point operations is not part of the model. The sign of a zero is part of it
  where it decides a result: in the angle between two vectors, which is \<open>pi\<close> or
  \<open>- pi\<close> for opposite vectors according to the sign of the zero imaginary part of
  their quotient. The coordinates of the points of a path are taken to have no negative
  zero; the differences of two points then have none either, since in floating-point
  arithmetic \<open>x - x\<close> is \<open>+0.0\<close>.
\<close>

subsection \<open>Constants\<close>

definition MAX_CROSSING_DISTANCE :: real where
  "MAX_CROSSING_DISTANCE = 64"

definition MAX_CUSP_MERGE_DISTANCE :: real where
  "MAX_CUSP_MERGE_DISTANCE = 15"

definition MIN_CUSP_ANGLE :: real where
  "MIN_CUSP_ANGLE = 0.1 * pi"

subsection \<open>Segments, paths and errors\<close>

text \<open>
  Modelled from the spec: the segment classes of the library \<^verbatim>\<open>svg.path\<close>, which
  the program imports. The spec's data model has two kinds of segment, a line with
  \<^verbatim>\<open>start\<close> and \<^verbatim>\<open>end\<close> and a quadratic curve with an additional
  \<^verbatim>\<open>control\<close> point; a path is an ordered sequence of segments. The selector for
  \<^verbatim>\<open>end\<close> is named \<open>seg_end\<close>, and the others accordingly.
\<close>

datatype segment =
    is_Line: Line (seg_start: complex) (seg_end: complex)
  | is_QuadraticBezier:
      QuadraticBezier (seg_start: complex) (seg_control: complex) (seg_end: complex)

type_synonym path = "segment list"

datatype error = IndexError | AssertionError | ZeroDivisionError

subsection \<open>break_path\<close>

text \<open>
  One round of the loop of \<^verbatim>\<open>break_path\<close>: a new, empty sub-path is appended
  when the element does not start where the last element retained so far ends, and the
  element is appended to the last sub-path.
\<close>

definition break_step :: "path list \<Rightarrow> segment \<Rightarrow> path list" where
  "break_step subpaths element =
     (let subpaths' =
        (if seg_start element \<noteq> seg_end (last (last subpaths))
         then subpaths @ [[]] else subpaths)
      in butlast subpaths' @ [last subpaths' @ [element]])"

text \<open>\<^verbatim>\<open>path[0]\<close> raises IndexError on an empty path.\<close>

definition break_path :: "path \<Rightarrow> error + path list" where
  "break_path p =
     (case p of
        [] \<Rightarrow> Inl IndexError
      | first # rest \<Rightarrow> Inr (foldl break_step [[first]] rest))"

text \<open>A run of segments is contiguous when each one starts where the one before ends.\<close>

fun contiguous :: "path \<Rightarrow> bool" where
  "contiguous (a # b # rest) = (seg_end a = seg_start b \<and> contiguous (b # rest))"
| "contiguous _ = True"

text \<open>Consecutive sub-paths are separated by a break of continuity.\<close>

fun separated :: "path list \<Rightarrow> bool" where
  "separated (s # t # rest) =
     (seg_start (hd t) \<noteq> seg_end (last s) \<and> separated (t # rest))"
| "separated _ = True"

subsection \<open>Floats with the sign of zero\<close>

text \<open>
  A float in the computation of an angle: the exact real that it stands for, and its sign
  bit, which is \<open>True\<close> for a negative number and tells \<open>-0.0\<close> from \<open>+0.0\<close>.
  \<open>float_of x\<close> is the float of the real \<open>x\<close>, with a positive zero.

  The arithmetic follows IEEE 754 in the signs: the sign of a product or quotient is the
  exclusive or of the signs of its operands, a sum that is zero is negative only when both
  operands are negative (zeros), and a difference is the sum with the negated operand.
\<close>

type_synonym float = "real \<times> bool"

definition float_of :: "real \<Rightarrow> float" where
  "float_of x = (x, x < 0)"

definition fadd :: "float \<Rightarrow> float \<Rightarrow> float" where
  "fadd x y = (let v = fst x + fst y in (v, if v = 0 then snd x \<and> snd y else v < 0))"

definition fsub :: "float \<Rightarrow> float \<Rightarrow> float" where
  "fsub x y = fadd x (- fst y, \<not> snd y)"

definition fmul :: "float \<Rightarrow> float \<Rightarrow> float" where
  "fmul x y = (fst x * fst y, snd x \<noteq> snd y)"

definition fdiv :: "float \<Rightarrow> float \<Rightarrow> float" where
  "fdiv x y = (fst x / fst y, snd x \<noteq> snd y)"

text \<open>
  The quotient of two Python complex numbers, which the interpreter computes by the function
  \<^verbatim>\<open>c_quot\<close> of \<^verbatim>\<open>complexobject.c\<close>: numerator and denominator are divided by
  the part of the divisor that is larger in absolute value. The result is the pair of the
  real and the imaginary part. For the divisor zero the interpreter raises
  ZeroDivisionError; \<^verbatim>\<open>_get_angle\<close> divides by a vector that it has tested to be
  non-zero.
\<close>

definition c_quot :: "complex \<Rightarrow> complex \<Rightarrow> float \<times> float" where
  "c_quot a b =
     (let a_real = float_of (Re a); a_imag = float_of (Im a);
          b_real = float_of (Re b); b_imag = float_of (Im b);
          abs_breal = \<bar>Re b\<bar>; abs_bimag = \<bar>Im b\<bar>
      in if abs_breal \<ge> abs_bimag then
           if abs_breal = 0 then (float_of 0, float_of 0)
           else
             let ratio = fdiv b_imag b_real;
                 denom = fadd b_real (fmul b_imag ratio)
             in (fdiv (fadd a_real (fmul a_imag ratio)) denom,
                 fdiv (fsub a_imag (fmul a_real ratio)) denom)
         else
           let ratio = fdiv b_real b_imag;
               denom = fadd (fmul b_real ratio) b_imag
           in (fdiv (fadd (fmul a_real ratio) a_imag) denom,
               fdiv (fsub (fmul a_imag ratio) a_real) denom))"

subsection \<open>Angles and tangents\<close>

text \<open>
  \<^verbatim>\<open>math.atan2(y, x)\<close> of the Python standard library: the angle of the point
  \<open>(x, y)\<close>, from \<open>- pi\<close> to \<open>pi\<close>. For \<open>y\<close> zero and \<open>x\<close> negative (a negative
  zero included) the result is \<open>- pi\<close> when \<open>y\<close> is \<open>-0.0\<close> and \<open>pi\<close> when it is
  \<open>+0.0\<close>; for \<open>y\<close> zero and \<open>x\<close> positive it is a zero.
\<close>

definition atan2 :: "float \<Rightarrow> float \<Rightarrow> real" where
  "atan2 y x =
     (if fst y = 0 then
        if fst x < 0 \<or> (fst x = 0 \<and> snd x) then (if snd y then - pi else pi) else 0
      else if 0 < fst x then arctan (fst y / fst x)
      else if fst x < 0 \<and> 0 < fst y then arctan (fst y / fst x) + pi
      else if fst x < 0 then arctan (fst y / fst x) - pi
      else if 0 < fst y then pi / 2
      else - (pi / 2))"

text \<open>
  \<^verbatim>\<open>Cusp._get_angle\<close>: a complex number is false in Python exactly when it is zero.
\<close>

definition get_angle :: "complex \<Rightarrow> complex \<Rightarrow> real" where
  "get_angle vector1 vector2 =
     (if vector1 = 0 \<or> vector2 = 0 then 0
      else let ratio = c_quot vector1 vector2 in atan2 (snd ratio) (fst ratio))"

text \<open>
  \<^verbatim>\<open>Cusp._get_tangents\<close>: the tangent into the end of segment \<open>i\<close> and the tangent
  out of the start of its cyclic successor. \<^verbatim>\<open>path[index]\<close> raises IndexError out of
  range; the successor's index is in range whenever \<open>i\<close> is.
\<close>

definition get_tangents :: "path \<Rightarrow> nat \<Rightarrow> error + complex \<times> complex" where
  "get_tangents p i =
     (if i < length p then
        let segment1 = p ! i;
            tangent1 =
              (if is_QuadraticBezier segment1 \<and> seg_end segment1 \<noteq> seg_control segment1
               then seg_end segment1 - seg_control segment1
               else seg_end segment1 - seg_start segment1);
            segment2 = p ! ((i + 1) mod length p);
            tangent2 =
              (if is_QuadraticBezier segment2 \<and> seg_control segment2 \<noteq> seg_end segment2
               then seg_control segment2 - seg_start segment2
               else seg_end segment2 - seg_start segment2)
        in Inr (tangent1, tangent2)
      else Inl IndexError)"

subsection \<open>Cusps\<close>

record cusp =
  paths :: "path list"
  index :: "nat \<times> nat"
  point :: complex
  tangent1 :: complex
  tangent2 :: complex
  angle :: real

text \<open>\<^verbatim>\<open>Cusp.__init__\<close>; \<^verbatim>\<open>paths[i][j]\<close> raises IndexError out of range.\<close>

definition Cusp :: "path list \<Rightarrow> nat \<times> nat \<Rightarrow> error + cusp" where
  "Cusp ps idx =
     (case idx of (i, j) \<Rightarrow>
        if i < length ps \<and> j < length (ps ! i) then
          (case get_tangents (ps ! i) j of
             Inl e \<Rightarrow> Inl e
           | Inr (t1, t2) \<Rightarrow>
               Inr \<lparr>paths = ps, index = idx, point = seg_end (ps ! i ! j),
                    tangent1 = t1, tangent2 = t2, angle = get_angle t1 t2\<rparr>)
        else Inl IndexError)"

subsection \<open>Cusp.merge\<close>

text \<open>
  The loop of \<^verbatim>\<open>Cusp.merge\<close> that walks forward from segment \<open>j\<close> to the segment
  \<open>target\<close>, adding the chord length of every segment it steps onto. The loop does not
  end when \<open>target\<close> is not an index of the path: the result is then \<open>None\<close>.
  \<^verbatim>\<open>(j + 1) % len(path)\<close> raises ZeroDivisionError on an empty path.
\<close>

partial_function (option) merge_walk ::
  "path \<Rightarrow> nat \<Rightarrow> nat \<Rightarrow> real \<Rightarrow> (error + real) option" where
  "merge_walk p j target distance =
     (if j \<noteq> target then
        if length p = 0 then Some (Inl ZeroDivisionError)
        else
          let j' = (j + 1) mod length p
          in merge_walk p j' target (distance + cmod (seg_end (p ! j') - seg_start (p ! j')))
      else Some (Inr distance))"

text \<open>
  \<^verbatim>\<open>Cusp.merge\<close> returns the truth value and, since it assigns to the fields of
  \<open>other\<close>, the new value of \<open>other\<close>.
\<close>

definition merge :: "cusp \<Rightarrow> cusp \<Rightarrow> (error + bool \<times> cusp) option" where
  "merge self other =
     (if fst (index other) \<noteq> fst (index self) then Some (Inl AssertionError)
      else if cmod (point other - point self) > MAX_CUSP_MERGE_DISTANCE
      then Some (Inr (False, other))
      else if \<not> fst (index self) < length (paths self) then Some (Inl IndexError)
      else
        (case merge_walk (paths self ! fst (index self)) (snd (index self))
                (snd (index other)) 0 of
           None \<Rightarrow> None
         | Some (Inl e) \<Rightarrow> Some (Inl e)
         | Some (Inr distance) \<Rightarrow>
             if distance > MAX_CUSP_MERGE_DISTANCE then Some (Inr (False, other))
             else
               let other1 =
                     (if \<bar>angle self\<bar> > \<bar>angle other\<bar>
                      then other\<lparr>index := index self, point := point self\<rparr>
                      else other);
                   other2 = other1\<lparr>tangent1 := tangent1 self\<rparr>;
                   other3 = other2\<lparr>angle := get_angle (tangent1 other2) (tangent2 other2)\<rparr>
               in Some (Inr (True, other3))))"

subsection \<open>get_cusps\<close>

text \<open>
  The first inner loop of \<^verbatim>\<open>get_cusps\<close>: the cusps of sub-path \<open>i\<close>, a cusp for
  every segment whose turning angle is large enough.
\<close>

definition detect_step :: "path list \<Rightarrow> nat \<Rightarrow> error + cusp list \<Rightarrow> nat \<Rightarrow> error + cusp list" where
  "detect_step ps i acc j =
     (case acc of
        Inl e \<Rightarrow> Inl e
      | Inr cusps \<Rightarrow>
          (case Cusp ps (i, j) of
             Inl e \<Rightarrow> Inl e
           | Inr c \<Rightarrow> if \<bar>angle c\<bar> > MIN_CUSP_ANGLE then Inr (cusps @ [c]) else Inr cusps))"

definition detect_cusps :: "path list \<Rightarrow> nat \<Rightarrow> error + cusp list" where
  "detect_cusps ps i = foldl (detect_step ps i) (Inr []) [0..<length (ps ! i)]"

text \<open>\<^verbatim>\<open>cusps.pop(j)\<close> for an index \<open>j\<close> of the list.\<close>

definition pop :: "nat \<Rightarrow> 'a list \<Rightarrow> 'a list" where
  "pop j xs = take j xs @ drop (Suc j) xs"

text \<open>
  The second inner loop of \<^verbatim>\<open>get_cusps\<close>, from index \<open>j\<close>: the cusp at \<open>j\<close> is
  merged into its cyclic successor and removed, or the index advances. The successor is
  the object that \<^verbatim>\<open>merge\<close> assigns to, so the list holds its new value.
\<close>

function merge_cusps :: "nat \<Rightarrow> cusp list \<Rightarrow> (error + cusp list) option" where
  "merge_cusps j cusps =
     (if j < length cusps then
        (case merge (cusps ! j) (cusps ! ((j + 1) mod length cusps)) of
           None \<Rightarrow> None
         | Some (Inl e) \<Rightarrow> Some (Inl e)
         | Some (Inr (merged, other')) \<Rightarrow>
             if merged
             then merge_cusps j (pop j (cusps[(j + 1) mod length cusps := other']))
             else merge_cusps (j + 1) cusps)
      else Some (Inr cusps))"
  by pat_completeness auto
termination
  by (relation "measure (\<lambda>(j, cusps). 2 * length cusps - j)") (auto simp: pop_def)

declare merge_cusps.simps [simp del]

text \<open>The number of rounds of that loop, counted along the same recursion.\<close>

function merge_rounds :: "nat \<Rightarrow> cusp list \<Rightarrow> nat" where
  "merge_rounds j cusps =
     (if j < length cusps then
        (case merge (cusps ! j) (cusps ! ((j + 1) mod length cusps)) of
           None \<Rightarrow> 1
         | Some (Inl e) \<Rightarrow> 1
         | Some (Inr (merged, other')) \<Rightarrow>
             if merged
             then 1 + merge_rounds j (pop j (cusps[(j + 1) mod length cusps := other']))
             else 1 + merge_rounds (j + 1) cusps)
      else 0)"
  by pat_completeness auto
termination
  by (relation "measure (\<lambda>(j, cusps). 2 * length cusps - j)") (auto simp: pop_def)

declare merge_rounds.simps [simp del]

definition get_cusps_step ::
  "path list \<Rightarrow> (error + cusp list) option \<Rightarrow> nat \<Rightarrow> (error + cusp list) option" where
  "get_cusps_step ps acc i =
     (case acc of
        None \<Rightarrow> None
      | Some (Inl e) \<Rightarrow> Some (Inl e)
      | Some (Inr result) \<Rightarrow>
          (case detect_cusps ps i of
             Inl e \<Rightarrow> Some (Inl e)
           | Inr cusps \<Rightarrow>
               (case merge_cusps 0 cusps of
                  None \<Rightarrow> None
                | Some (Inl e) \<Rightarrow> Some (Inl e)
                | Some (Inr cusps') \<Rightarrow> Some (Inr (result @ cusps')))))"

definition get_cusps :: "path list \<Rightarrow> (error + cusp list) option" where
  "get_cusps ps = foldl (get_cusps_step ps) (Some (Inr [])) [0..<length ps]"

subsection \<open>Cusp.connect\<close>

text \<open>\<^verbatim>\<open>Cusp._try_connect\<close>; what it prints is left out.\<close>

definition try_connect :: "cusp \<Rightarrow> cusp \<Rightarrow> bool \<Rightarrow> bool" where
  "try_connect self other reverse =
     (if point other = point self then True
      else
        let diff = point other - point self;
            len = cmod diff
        in if len > MAX_CROSSING_DISTANCE then False
           else
             let (other1, other2) =
                   (if reverse then (tangent2 other, tangent1 other)
                    else (tangent1 other, tangent2 other));
                 features0 = get_angle (tangent1 self) diff;
                 features1 = get_angle diff other2;
                 features2 = get_angle diff (tangent2 self);
                 features3 = get_angle other1 diff
             in features2 * features3 > 0 \<and>
                \<bar>features0\<bar> < 0.3 * pi \<and>
                \<bar>features1\<bar> < 0.3 * pi \<and>
                \<bar>features2\<bar> > 0.3 * pi \<and>
                \<bar>features3\<bar> > 0.3 * pi)"

definition connect :: "cusp \<Rightarrow> cusp \<Rightarrow> bool" where
  "connect self other =
     (if index other = index self then False
      else if fst (index other) = fst (index self) then try_connect self other False
      else try_connect self other False \<or> try_connect self other True)"

subsection \<open>augment_glyph\<close>

text \<open>
  The elements that \<^verbatim>\<open>augment_glyph\<close> returns are strings of SVG markup: a circle at
  a cusp, with the cusp's angle, and a line from one cusp to another. They are modelled by
  the numbers that the strings are formatted from. \<^verbatim>\<open>int\<close> of a float truncates
  towards zero.
\<close>

datatype markup = circle_tag int int real | line_tag int int int int

definition py_int :: "real \<Rightarrow> int" where
  "py_int x = (if 0 \<le> x then \<lfloor>x\<rfloor> else \<lceil>x\<rceil>)"

definition circle_of :: "cusp \<Rightarrow> markup" where
  "circle_of c = circle_tag (py_int (Re (point c))) (py_int (Im (point c))) (angle c)"

definition line_of :: "cusp \<Rightarrow> cusp \<Rightarrow> markup" where
  "line_of c other =
     line_tag (py_int (Re (point c))) (py_int (Im (point c)))
       (py_int (Re (point other))) (py_int (Im (point other)))"

text \<open>The first loop over the cusps appends a circle for each.\<close>

definition add_circles :: "cusp list \<Rightarrow> markup list \<Rightarrow> markup list" where
  "add_circles cusps result = foldl (\<lambda>result c. result @ [circle_of c]) result cusps"

text \<open>
  The second loop runs over every cusp and, for each, over every cusp again, and appends
  a line when \<^verbatim>\<open>cusp.connect(other)\<close> holds.
\<close>

definition add_lines :: "cusp list \<Rightarrow> markup list \<Rightarrow> markup list" where
  "add_lines cusps result =
     foldl (\<lambda>result c.
       foldl (\<lambda>result other. if connect c other then result @ [line_of c other] else result)
         result cusps)
       result cusps"

text \<open>
  \<^verbatim>\<open>augment_glyph\<close>, from the path that the parser returns for the glyph. Elements
  of length zero are dropped, and the path that remains must not be empty.
\<close>

definition augment_glyph :: "path \<Rightarrow> (error + markup list) option" where
  "augment_glyph parsed =
     (let p = filter (\<lambda>element. seg_start element \<noteq> seg_end element) parsed
      in if p = [] then Some (Inl AssertionError)
         else
           (case break_path p of
              Inl e \<Rightarrow> Some (Inl e)
            | Inr ps \<Rightarrow>
                (case get_cusps ps of
                   None \<Rightarrow> None
                 | Some (Inl e) \<Rightarrow> Some (Inl e)
                 | Some (Inr cusps) \<Rightarrow> Some (Inr (add_lines cusps (add_circles cusps []))))))"

subsection \<open>Notions used in the properties\<close>

text \<open>The invariant of the loop of \<^verbatim>\<open>break_path\<close>.\<close>

definition break_inv :: "path list \<Rightarrow> bool" where
  "break_inv subpaths \<longleftrightarrow>
     subpaths \<noteq> [] \<and> (\<forall>s \<in> set subpaths. s \<noteq> [] \<and> contiguous s) \<and> separated subpaths"

text \<open>The chord length of a segment.\<close>

definition chord :: "segment \<Rightarrow> real" where
  "chord s = cmod (seg_end s - seg_start s)"

text \<open>
  The segments between the vertex of segment \<open>j\<close> and the vertex of segment \<open>target\<close>
  on a cyclic path of \<open>n\<close> segments, walking forward, and the sum of their chord lengths.
\<close>

definition arc_indices :: "nat \<Rightarrow> nat \<Rightarrow> nat \<Rightarrow> nat list" where
  "arc_indices n j target =
     map (\<lambda>k. (j + k) mod n) [1..<Suc (if j \<le> target then target - j else target + n - j)]"

definition arc_length :: "path \<Rightarrow> nat \<Rightarrow> nat \<Rightarrow> real" where
  "arc_length p j target = (\<Sum>k\<leftarrow>arc_indices (length p) j target. chord (p ! k))"

text \<open>
  A cusp of sub-path \<open>i\<close> of the paths \<open>ps\<close>: it refers to these paths and its index is
  the index of a segment of that sub-path.
\<close>

definition on_path :: "path list \<Rightarrow> nat \<Rightarrow> cusp \<Rightarrow> bool" where
  "on_path ps i c \<longleftrightarrow>
     paths c = ps \<and> fst (index c) = i \<and> i < length ps \<and> snd (index c) < length (ps ! i)"

text \<open>
  The tangents and the turning angle of the vertex at the end of segment \<open>j\<close> of a
  sub-path, as the specification words them: the incoming tangent is \<open>end - start\<close> of
  segment \<open>j\<close>, or \<open>end - control\<close> when the segment is a quadratic curve whose control
  point differs from its end; the outgoing tangent is \<open>end - start\<close> of the next segment,
  or \<open>control - start\<close> when that is a quadratic curve whose control point differs from
  its end; the angle is \<open>atan2\<close> of the imaginary and the real part of the quotient
  \<open>r\<close> of the incoming by the outgoing tangent (a complex division), and 0 when either
  tangent is zero.
\<close>

definition tangent_in :: "path \<Rightarrow> nat \<Rightarrow> complex" where
  "tangent_in p j =
     (case p ! j of
        Line s e \<Rightarrow> e - s
      | QuadraticBezier s c e \<Rightarrow> if c \<noteq> e then e - c else e - s)"

definition tangent_out :: "path \<Rightarrow> nat \<Rightarrow> complex" where
  "tangent_out p j =
     (case p ! ((j + 1) mod length p) of
        Line s e \<Rightarrow> e - s
      | QuadraticBezier s c e \<Rightarrow> if c \<noteq> e then c - s else e - s)"

definition turning_angle :: "path \<Rightarrow> nat \<Rightarrow> real" where
  "turning_angle p j =
     (let r = c_quot (tangent_in p j) (tangent_out p j)
      in if tangent_in p j = 0 \<or> tangent_out p j = 0 then 0 else atan2 (snd r) (fst r))"

text \<open>The cusp at that vertex of sub-path \<open>i\<close>.\<close>

definition vertex_cusp :: "path list \<Rightarrow> nat \<Rightarrow> nat \<Rightarrow> cusp" where
  "vertex_cusp ps i j =
     \<lparr>paths = ps, index = (i, j), point = seg_end (ps ! i ! j),
      tangent1 = tangent_in (ps ! i) j, tangent2 = tangent_out (ps ! i) j,
      angle = turning_angle (ps ! i) j\<rparr>"

text \<open>The angle of the point \<open>(x, y)\<close> for reals \<open>x\<close> and \<open>y\<close>, where no zero has a sign.\<close>

definition atan2_real :: "real \<Rightarrow> real \<Rightarrow> real" where
  "atan2_real y x =
     (if 0 < x then arctan (y / x)
      else if x < 0 \<and> 0 \<le> y then arctan (y / x) + pi
      else if x < 0 then arctan (y / x) - pi
      else if 0 < y then pi / 2
      else if y < 0 then - (pi / 2)
      else 0)"

text \<open>A cusp with its two tangents exchanged.\<close>

definition swap_tangents :: "cusp \<Rightarrow> cusp" where
  "swap_tangents c = c\<lparr>tangent1 := tangent2 c, tangent2 := tangent1 c\<rparr>"

subsection \<open>Example outlines\<close>

text \<open>
  A half disc, 10 wide: the base line and an arch of two quadratic curves. The vertices at
  the two ends of the base are cusps; the top of the arch is smooth.
\<close>

definition ex_arch :: path where
  "ex_arch =
     [Line (Complex 0 0) (Complex 10 0),
      QuadraticBezier (Complex 10 0) (Complex 10 12) (Complex 5 12),
      QuadraticBezier (Complex 5 12) (Complex 0 12) (Complex 0 0)]"

definition arch_c0 :: cusp where
  "arch_c0 =
     \<lparr>paths = [ex_arch], index = (0, 0), point = Complex 10 0,
      tangent1 = Complex 10 0, tangent2 = Complex 0 12, angle = - (pi / 2)\<rparr>"

definition arch_c2 :: cusp where
  "arch_c2 =
     \<lparr>paths = [ex_arch], index = (0, 2), point = Complex 0 0,
      tangent1 = Complex 0 (- 12), tangent2 = Complex 10 0, angle = - (pi / 2)\<rparr>"

text \<open>The cusp that remains when \<open>arch_c2\<close> is merged into \<open>arch_c0\<close>.\<close>

definition arch_merged :: cusp where
  "arch_merged =
     \<lparr>paths = [ex_arch], index = (0, 0), point = Complex 10 0,
      tangent1 = Complex 0 (- 12), tangent2 = Complex 0 12, angle = - pi\<rparr>"

text \<open>A leaf of two quadratic curves with one sharp tip, at the origin.\<close>

definition ex_leaf :: path where
  "ex_leaf =
     [QuadraticBezier (Complex 0 0) (Complex 10 10) (Complex 0 10),
      QuadraticBezier (Complex 0 10) (Complex (- 10) 10) (Complex 0 0)]"

definition leaf_tip :: cusp where
  "leaf_tip =
     \<lparr>paths = [ex_leaf], index = (0, 1), point = Complex 0 0,
      tangent1 = Complex 10 (- 10), tangent2 = Complex 10 10, angle = - (pi / 2)\<rparr>"

text \<open>
  Two triangles whose tips face each other across a gap of 10, as where a stroke crosses
  a gap in the outline.
\<close>

definition ex_tips :: path where
  "ex_tips =
     [Line (Complex (- 100) 100) (Complex 0 0),
      Line (Complex 0 0) (Complex (- 100) (- 100)),
      Line (Complex (- 100) (- 100)) (Complex (- 100) 100),
      Line (Complex 110 (- 100)) (Complex 10 0),
      Line (Complex 10 0) (Complex 110 100),
      Line (Complex 110 100) (Complex 110 (- 100))]"

definition tips_paths :: "path list" where
  "tips_paths = [take 3 ex_tips, drop 3 ex_tips]"

text \<open>The cusps of the two triangles; \<open>tip_a\<close> and \<open>tip_b\<close> are the two tips.\<close>

definition tips_cusp :: "nat \<times> nat \<Rightarrow> complex \<Rightarrow> complex \<Rightarrow> complex \<Rightarrow> real \<Rightarrow> cusp" where
  "tips_cusp idx p t1 t2 a =
     \<lparr>paths = tips_paths, index = idx, point = p, tangent1 = t1, tangent2 = t2, angle = a\<rparr>"

definition tip_a :: cusp where
  "tip_a = tips_cusp (0, 0) (Complex 0 0) (Complex 100 (- 100)) (Complex (- 100) (- 100)) (pi / 2)"

definition tips_a1 :: cusp where
  "tips_a1 =
     tips_cusp (0, 1) (Complex (- 100) (- 100)) (Complex (- 100) (- 100)) (Complex 0 200)
       (3 * pi / 4)"

definition tips_a2 :: cusp where
  "tips_a2 =
     tips_cusp (0, 2) (Complex (- 100) 100) (Complex 0 200) (Complex 100 (- 100)) (3 * pi / 4)"

definition tip_b :: cusp where
  "tip_b = tips_cusp (1, 0) (Complex 10 0) (Complex (- 100) 100) (Complex 100 100) (pi / 2)"

definition tips_b1 :: cusp where
  "tips_b1 =
     tips_cusp (1, 1) (Complex 110 100) (Complex 100 100) (Complex 0 (- 200)) (3 * pi / 4)"

definition tips_b2 :: cusp where
  "tips_b2 =
     tips_cusp (1, 2) (Complex 110 (- 100)) (Complex 0 (- 200)) (Complex (- 100) 100)
       (3 * pi / 4)"

definition tips_cusps :: "cusp list" where
  "tips_cusps = [tip_a, tips_a1, tips_a2, tip_b, tips_b1, tips_b2]"

text \<open>The two end points of a line, as an unordered pair.\<close>

fun line_ends :: "markup \<Rightarrow> (int \<times> int) set" where
  "line_ends (line_tag x1 y1 x2 y2) = {(x1, y1), (x2, y2)}"
| "line_ends (circle_tag cx cy a) = {(cx, cy)}"

text \<open>
  A cusp of sub-path \<open>i\<close> whose point is the end of the segment that its index names.
\<close>

definition cusp_ok :: "path list \<Rightarrow> nat \<Rightarrow> cusp \<Rightarrow> bool" where
  "cusp_ok ps i c \<longleftrightarrow> on_path ps i c \<and> point c = seg_end (ps ! i ! snd (index c))"

text \<open>
  A list of cusps on which the merging loop merges nothing: \<^verbatim>\<open>merge\<close> fails for every
  cusp and its cyclic successor.
\<close>

definition stable :: "cusp list \<Rightarrow> bool" where
  "stable cs \<longleftrightarrow>
     (\<forall>k < length cs.
        merge (cs ! k) (cs ! ((k + 1) mod length cs)) =
          Some (Inr (False, cs ! ((k + 1) mod length cs))))"

text \<open>
  The invariant of the merging loop at index \<open>j\<close>, before it wraps around: the cusps are in
  the order of their segments, and from each cusp before \<open>j\<close> the arc to the next cusp is
  longer than 15.
\<close>

definition scan_inv :: "path list \<Rightarrow> nat \<Rightarrow> nat \<Rightarrow> cusp list \<Rightarrow> bool" where
  "scan_inv ps i j cs \<longleftrightarrow>
     (\<forall>c \<in> set cs. cusp_ok ps i c) \<and>
     (\<forall>a b. a < b \<longrightarrow> b < length cs \<longrightarrow> snd (index (cs ! a)) < snd (index (cs ! b))) \<and>
     (\<forall>k < j. Suc k < length cs \<longrightarrow>
        15 < arc_length (ps ! i) (snd (index (cs ! k))) (snd (index (cs ! Suc k))))"

section \<open>Properties\<close>

subsection \<open>break_path\<close>

lemma contiguous_snoc:
  "contiguous (s @ [e]) \<longleftrightarrow> contiguous s \<and> (s \<noteq> [] \<longrightarrow> seg_end (last s) = seg_start e)"
  by (induction s rule: contiguous.induct) auto

lemma separated_snoc:
  "separated (ss @ [t]) \<longleftrightarrow>
     separated ss \<and> (ss \<noteq> [] \<longrightarrow> seg_start (hd t) \<noteq> seg_end (last (last ss)))"
  by (induction ss rule: separated.induct) auto

lemma break_step_new:
  "seg_start e \<noteq> seg_end (last (last ss)) \<Longrightarrow> break_step ss e = ss @ [[e]]"
  by (simp add: break_step_def)

lemma break_step_same:
  "seg_start e = seg_end (last (last ss)) \<Longrightarrow> break_step ss e = butlast ss @ [last ss @ [e]]"
  by (simp add: break_step_def)

lemma break_step_concat: "ss \<noteq> [] \<Longrightarrow> concat (break_step ss e) = concat ss @ [e]"
proof (cases "seg_start e \<noteq> seg_end (last (last ss))")
  case True
  then show ?thesis by (simp add: break_step_new)
next
  case False
  assume "ss \<noteq> []"
  then have "concat ss = concat (butlast ss) @ last ss"
    by (metis append_butlast_last_id concat.simps(1,2) concat_append append_Nil2)
  with False show ?thesis by (simp add: break_step_same)
qed

lemma break_step_inv: "break_inv ss \<Longrightarrow> break_inv (break_step ss e)"
proof (cases "seg_start e \<noteq> seg_end (last (last ss))")
  case True
  assume "break_inv ss"
  with True show ?thesis
    by (simp add: break_inv_def break_step_new separated_snoc)
next
  case False
  assume inv: "break_inv ss"
  then obtain ys y where ss: "ss = ys @ [y]"
    by (cases ss rule: rev_cases) (auto simp: break_inv_def)
  from inv have sep: "separated (ys @ [y])" and y: "y \<noteq> []" "contiguous y"
    and ys: "\<forall>s \<in> set ys. s \<noteq> [] \<and> contiguous s"
    by (auto simp: break_inv_def ss)
  from False have step: "break_step ss e = ys @ [y @ [e]]"
    by (simp add: break_step_same ss)
  from sep y have "separated (ys @ [y @ [e]])"
    by (simp add: separated_snoc)
  moreover from False y have "contiguous (y @ [e])"
    by (simp add: contiguous_snoc ss)
  ultimately show ?thesis
    using ys y by (simp add: break_inv_def step)
qed

lemma foldl_break_step:
  "break_inv ss \<Longrightarrow>
     break_inv (foldl break_step ss rest) \<and>
     concat (foldl break_step ss rest) = concat ss @ rest"
proof (induction rest arbitrary: ss)
  case Nil
  then show ?case by simp
next
  case (Cons e rest)
  from Cons.prems have "break_inv (break_step ss e)" by (rule break_step_inv)
  from Cons.IH [OF this] Cons.prems show ?case
    by (simp add: break_step_concat break_inv_def)
qed

text \<open>
  Claim C7. For a path that is not empty, \<^verbatim>\<open>break_path\<close> returns sub-paths whose
  concatenation, in order, is the path. No sub-path is empty. A new sub-path starts exactly
  at the breaks of continuity: inside a sub-path every segment starts where the one before
  ends, and the first segment of a sub-path does not start where the last segment of the
  sub-path before ends.
\<close>

theorem break_path_partition:
  assumes "p \<noteq> []"
  shows "\<exists>subpaths. break_path p = Inr subpaths \<and> concat subpaths = p \<and>
           (\<forall>s \<in> set subpaths. s \<noteq> [] \<and> contiguous s) \<and> separated subpaths"
proof -
  from assms obtain first rest where p: "p = first # rest" by (cases p) auto
  have "break_inv [[first]]" by (simp add: break_inv_def)
  from foldl_break_step [OF this, of rest] show ?thesis
    by (simp add: break_path_def p break_inv_def)
qed

subsection \<open>The walk along the path in Cusp.merge\<close>

lemma arc_indices_same: "arc_indices n j j = []"
  by (simp add: arc_indices_def)

lemma upt_1_Suc_Suc: "[1..<Suc (Suc m)] = 1 # map Suc [1..<Suc m]"
  by (metis One_nat_def map_Suc_upt upt_conv_Cons zero_less_Suc Suc_less_eq)

lemma arc_indices_step:
  assumes "j < n" "target < n" "j \<noteq> target"
  shows "arc_indices n j target = ((j + 1) mod n) # arc_indices n ((j + 1) mod n) target"
proof -
  define j' where "j' = (j + 1) mod n"
  define c' where "c' = (if j' \<le> target then target - j' else target + n - j')"
  have j': "j' = (if Suc j = n then 0 else Suc j)"
    using assms by (simp add: j'_def)
  have cnt: "(if j \<le> target then target - j else target + n - j) = Suc c'"
    using assms by (auto simp: c'_def j')
  have shift: "(j + Suc k) mod n = (j' + k) mod n" for k
    unfolding j'_def
    by (metis add_Suc_right add_Suc_shift mod_add_left_eq plus_1_eq_Suc add.commute)
  have "arc_indices n j target = map (\<lambda>k. (j + k) mod n) [1..<Suc (Suc c')]"
    unfolding arc_indices_def cnt ..
  also have "\<dots> = (j + 1) mod n # map (\<lambda>k. (j + Suc k) mod n) [1..<Suc c']"
    unfolding upt_1_Suc_Suc by (simp add: o_def)
  also have "map (\<lambda>k. (j + Suc k) mod n) [1..<Suc c'] = arc_indices n j' target"
    unfolding arc_indices_def c'_def shift ..
  finally show ?thesis unfolding j'_def .
qed

text \<open>
  The walk ends when both indices are indices of the path, and returns the distance it
  started from plus the arc length.
\<close>

lemma merge_walk_arc:
  assumes "j < length p" "target < length p"
  shows "merge_walk p j target d = Some (Inr (d + arc_length p j target))"
  using assms
proof (induction "length (arc_indices (length p) j target)" arbitrary: j d rule: less_induct)
  case less
  show ?case
  proof (cases "j = target")
    case True
    then show ?thesis
      by (subst merge_walk.simps) (simp add: arc_length_def arc_indices_same)
  next
    case False
    let ?j = "(j + 1) mod length p"
    from less.prems have n: "length p \<noteq> 0" by auto
    then have j': "?j < length p" by simp
    note step = arc_indices_step [OF less.prems False]
    then have lt:
      "length (arc_indices (length p) ?j target) < length (arc_indices (length p) j target)"
      by simp
    have "merge_walk p j target d = merge_walk p ?j target (d + chord (p ! ?j))"
      using False n by (subst merge_walk.simps) (simp add: Let_def chord_def)
    also have "\<dots> = Some (Inr (d + chord (p ! ?j) + arc_length p ?j target))"
      by (rule less.hyps [OF lt j' less.prems(2)])
    also have "d + chord (p ! ?j) + arc_length p ?j target = d + arc_length p j target"
      by (simp add: arc_length_def step)
    finally show ?thesis .
  qed
qed

subsection \<open>The angle function\<close>

text \<open>
  For reals, the angle of the point \<open>(x, y)\<close> is the argument of the complex number
  \<open>x + iy\<close>.
\<close>

lemma sqrt_ratio:
  fixes x y :: real
  assumes "x \<noteq> 0"
  shows "sqrt (1 + (y / x)\<^sup>2) = sqrt (x\<^sup>2 + y\<^sup>2) / \<bar>x\<bar>"
proof -
  from assms have "1 + (y / x)\<^sup>2 = (x\<^sup>2 + y\<^sup>2) / x\<^sup>2"
    by (simp add: field_simps power2_eq_square)
  then show ?thesis
    by (simp add: real_sqrt_divide)
qed

lemma cos_arctan_ratio:
  fixes x y :: real
  assumes "x \<noteq> 0"
  shows "cos (arctan (y / x)) = \<bar>x\<bar> / sqrt (x\<^sup>2 + y\<^sup>2)"
  by (simp add: cos_arctan sqrt_ratio [OF assms])

lemma sin_arctan_ratio:
  fixes x y :: real
  assumes "x \<noteq> 0"
  shows "sin (arctan (y / x)) = (y / x) * \<bar>x\<bar> / sqrt (x\<^sup>2 + y\<^sup>2)"
  by (simp add: sin_arctan sqrt_ratio [OF assms])

lemma atan2_real_cos_sin:
  assumes "x \<noteq> 0 \<or> y \<noteq> 0"
  shows "cos (atan2_real y x) = x / sqrt (x\<^sup>2 + y\<^sup>2) \<and>
         sin (atan2_real y x) = y / sqrt (x\<^sup>2 + y\<^sup>2)"
proof -
  consider "0 < x" | "x < 0" | "x = 0" "0 < y" | "x = 0" "y < 0"
    using assms by linarith
  then show ?thesis
  proof cases
    case 1
    then show ?thesis
      by (simp add: atan2_real_def cos_arctan_ratio sin_arctan_ratio)
  next
    case 2
    then show ?thesis
      by (simp add: atan2_real_def cos_arctan_ratio sin_arctan_ratio)
  next
    case 3
    then show ?thesis by (simp add: atan2_real_def)
  next
    case 4
    then show ?thesis by (simp add: atan2_real_def)
  qed
qed

lemma atan2_real_range: "- pi < atan2_real y x \<and> atan2_real y x \<le> pi"
proof -
  have a: "- (pi / 2) < arctan (y / x)" "arctan (y / x) < pi / 2"
    by (rule arctan_lbound, rule arctan_ubound)
  have neg: "arctan (y / x) \<le> 0" if "x < 0" "0 \<le> y"
    using that by (simp add: divide_nonneg_neg arctan_le_zero_iff)
  have pos: "0 < arctan (y / x)" if "x < 0" "y < 0"
    using that by (simp add: divide_neg_neg zero_less_arctan_iff)
  show ?thesis
    using a neg pos pi_gt_zero unfolding atan2_real_def by (auto simp: not_le not_less)
qed

lemma atan2_real_Arg: "atan2_real (Im z) (Re z) = Arg z"
proof (cases "z = 0")
  case True
  then show ?thesis by (simp add: atan2_real_def Arg_zero)
next
  case False
  then have nz: "Re z \<noteq> 0 \<or> Im z \<noteq> 0" by (auto simp: complex_eq_iff)
  have "sgn z = cis (atan2_real (Im z) (Re z))"
    using atan2_real_cos_sin [OF nz]
    by (simp add: complex_eq_iff sgn_eq cmod_def)
  with atan2_real_range [of "Im z" "Re z"] show ?thesis
    by (simp add: cis_Arg_unique)
qed

text \<open>
  \<open>atan2\<close> on floats is that angle, but for a zero \<open>y\<close> with negative \<open>x\<close>, where the
  sign of the zero chooses between \<open>pi\<close> and \<open>- pi\<close>.
\<close>

lemma atan2_real: "fst y \<noteq> 0 \<or> 0 < fst x \<Longrightarrow> atan2 y x = atan2_real (fst y) (fst x)"
  by (auto simp: atan2_def atan2_real_def)

lemma atan2_cut: "fst y = 0 \<Longrightarrow> fst x < 0 \<Longrightarrow> atan2 y x = (if snd y then - pi else pi)"
  by (simp add: atan2_def)

lemma atan2_float_of: "atan2 (float_of y) (float_of x) = atan2_real y x"
  by (auto simp: atan2_def atan2_real_def float_of_def)

text \<open>The values of the parts of the quotient are those of the exact quotient.\<close>

lemma smith_re:
  fixes a b c d :: real
  assumes "c \<noteq> 0"
  shows "(a + b * (d / c)) / (c + d * (d / c)) = (a * c + b * d) / (c * c + d * d)"
proof -
  from assms have s: "c * c + d * d \<noteq> 0"
    by (metis add_nonneg_eq_0_iff mult_eq_0_iff zero_le_square)
  have "c + d * (d / c) = (c * c + d * d) / c" using assms by (simp add: field_simps)
  moreover have "a + b * (d / c) = (a * c + b * d) / c" using assms by (simp add: field_simps)
  ultimately show ?thesis using assms s by simp
qed

lemma smith_im:
  fixes a b c d :: real
  assumes "c \<noteq> 0"
  shows "(b - a * (d / c)) / (c + d * (d / c)) = (b * c - a * d) / (c * c + d * d)"
proof -
  from assms have s: "c * c + d * d \<noteq> 0"
    by (metis add_nonneg_eq_0_iff mult_eq_0_iff zero_le_square)
  have "c + d * (d / c) = (c * c + d * d) / c" using assms by (simp add: field_simps)
  moreover have "b - a * (d / c) = (b * c - a * d) / c" using assms by (simp add: field_simps)
  ultimately show ?thesis using assms s by simp
qed

lemma smith_re':
  fixes a b c d :: real
  assumes "d \<noteq> 0"
  shows "(a * (c / d) + b) / (c * (c / d) + d) = (a * c + b * d) / (c * c + d * d)"
proof -
  from assms have s: "c * c + d * d \<noteq> 0"
    by (metis add_nonneg_eq_0_iff mult_eq_0_iff zero_le_square)
  have "c * (c / d) + d = (c * c + d * d) / d" using assms by (simp add: field_simps)
  moreover have "a * (c / d) + b = (a * c + b * d) / d" using assms by (simp add: field_simps)
  ultimately show ?thesis using assms s by simp
qed

lemma smith_im':
  fixes a b c d :: real
  assumes "d \<noteq> 0"
  shows "(b * (c / d) - a) / (c * (c / d) + d) = (b * c - a * d) / (c * c + d * d)"
proof -
  from assms have s: "c * c + d * d \<noteq> 0"
    by (metis add_nonneg_eq_0_iff mult_eq_0_iff zero_le_square)
  have "c * (c / d) + d = (c * c + d * d) / d" using assms by (simp add: field_simps)
  moreover have "b * (c / d) - a = (b * c - a * d) / d" using assms by (simp add: field_simps)
  ultimately show ?thesis using assms s by simp
qed

lemma c_quot_value:
  assumes "b \<noteq> 0"
  shows "fst (fst (c_quot a b)) = Re (a / b) \<and> fst (snd (c_quot a b)) = Im (a / b)"
proof -
  have q: "Re (a / b) = (Re a * Re b + Im a * Im b) / (Re b * Re b + Im b * Im b)"
    "Im (a / b) = (Im a * Re b - Re a * Im b) / (Re b * Re b + Im b * Im b)"
    by (simp_all add: Re_divide Im_divide power2_eq_square)
  show ?thesis
  proof (cases "\<bar>Re b\<bar> \<ge> \<bar>Im b\<bar>")
    case True
    with assms have nz: "Re b \<noteq> 0" by (auto simp: complex_eq_iff)
    from True nz have
      "fst (fst (c_quot a b)) =
         (Re a + Im a * (Im b / Re b)) / (Re b + Im b * (Im b / Re b))"
      "fst (snd (c_quot a b)) =
         (Im a - Re a * (Im b / Re b)) / (Re b + Im b * (Im b / Re b))"
      by (simp_all add: c_quot_def Let_def fadd_def fsub_def fmul_def fdiv_def float_of_def)
    then show ?thesis
      unfolding q smith_re [OF nz] smith_im [OF nz] by simp
  next
    case False
    then have nz: "Im b \<noteq> 0" by auto
    from False have
      "fst (fst (c_quot a b)) =
         (Re a * (Re b / Im b) + Im a) / (Re b * (Re b / Im b) + Im b)"
      "fst (snd (c_quot a b)) =
         (Im a * (Re b / Im b) - Re a) / (Re b * (Re b / Im b) + Im b)"
      by (simp_all add: c_quot_def Let_def fadd_def fsub_def fmul_def fdiv_def float_of_def)
    then show ?thesis
      unfolding q smith_re' [OF nz] smith_im' [OF nz] by simp
  qed
qed

text \<open>
  The angle that \<^verbatim>\<open>_get_angle\<close> returns for two non-zero vectors is the argument of
  their quotient, up to the sign of \<open>pi\<close> for opposite vectors.
\<close>

lemma get_angle_Arg:
  assumes "v1 \<noteq> 0" "v2 \<noteq> 0"
  shows "get_angle v1 v2 = Arg (v1 / v2) \<or>
         (get_angle v1 v2 = - pi \<and> Arg (v1 / v2) = pi)"
proof -
  let ?r = "c_quot v1 v2"
  from c_quot_value [OF assms(2), of v1]
  have re: "fst (fst ?r) = Re (v1 / v2)" and im: "fst (snd ?r) = Im (v1 / v2)" by simp_all
  from assms have q: "v1 / v2 \<noteq> 0" by simp
  from assms have g: "get_angle v1 v2 = atan2 (snd ?r) (fst ?r)"
    by (simp add: get_angle_def Let_def)
  show ?thesis
  proof (cases "fst (snd ?r) \<noteq> 0 \<or> 0 < fst (fst ?r)")
    case True
    from atan2_real [OF this] show ?thesis
      unfolding g re im by (simp add: atan2_real_Arg)
  next
    case False
    with q re im have cut: "fst (snd ?r) = 0" "fst (fst ?r) < 0"
      by (auto simp: complex_eq_iff)
    have "Arg (v1 / v2) = atan2_real (Im (v1 / v2)) (Re (v1 / v2))"
      by (simp add: atan2_real_Arg)
    also have "\<dots> = pi" using cut unfolding re im by (simp add: atan2_real_def)
    finally show ?thesis
      unfolding g atan2_cut [OF cut] by simp
  qed
qed

lemma get_angle_abs:
  assumes "v1 \<noteq> 0" "v2 \<noteq> 0"
  shows "\<bar>get_angle v1 v2\<bar> = \<bar>Arg (v1 / v2)\<bar>"
  using get_angle_Arg [OF assms] by auto

subsection \<open>The cusps of a sub-path\<close>

lemma get_tangents_eq:
  "j < length p \<Longrightarrow> get_tangents p j = Inr (tangent_in p j, tangent_out p j)"
  by (cases "p ! j"; cases "p ! ((j + 1) mod length p)")
     (auto simp: get_tangents_def tangent_in_def tangent_out_def Let_def)

lemma Cusp_eq:
  "i < length ps \<Longrightarrow> j < length (ps ! i) \<Longrightarrow> Cusp ps (i, j) = Inr (vertex_cusp ps i j)"
  by (simp add: Cusp_def get_tangents_eq vertex_cusp_def turning_angle_def get_angle_def Let_def)

lemma Cusp_on_path:
  assumes "Cusp ps (i, j) = Inr c"
  shows "on_path ps i c \<and> c = vertex_cusp ps i j"
proof -
  from assms have ij: "i < length ps" "j < length (ps ! i)"
    by (auto simp: Cusp_def split: if_splits)
  with assms have "c = vertex_cusp ps i j" by (simp add: Cusp_eq)
  with ij show ?thesis by (simp add: on_path_def vertex_cusp_def)
qed

lemma foldl_detect_step:
  assumes "i < length ps" "\<forall>j \<in> set js. j < length (ps ! i)"
  shows "foldl (detect_step ps i) (Inr acc) js =
           Inr (acc @ map (vertex_cusp ps i)
                  (filter (\<lambda>j. \<bar>turning_angle (ps ! i) j\<bar> > MIN_CUSP_ANGLE) js))"
  using assms(2)
proof (induction js arbitrary: acc)
  case Nil
  then show ?case by simp
next
  case (Cons j js)
  from Cons.prems assms(1) have c: "Cusp ps (i, j) = Inr (vertex_cusp ps i j)"
    by (simp add: Cusp_eq)
  have a: "angle (vertex_cusp ps i j) = turning_angle (ps ! i) j"
    by (simp add: vertex_cusp_def)
  from Cons.prems have js: "\<forall>j \<in> set js. j < length (ps ! i)" by simp
  have "detect_step ps i (Inr acc) j =
          Inr (if \<bar>turning_angle (ps ! i) j\<bar> > MIN_CUSP_ANGLE then acc @ [vertex_cusp ps i j] else acc)"
    by (simp add: detect_step_def c a)
  then show ?case
    by (simp add: Cons.IH [OF js])
qed

lemma detect_cusps_eq:
  assumes "i < length ps"
  shows "detect_cusps ps i =
           Inr (map (vertex_cusp ps i)
                  (filter (\<lambda>j. \<bar>turning_angle (ps ! i) j\<bar> > MIN_CUSP_ANGLE) [0..<length (ps ! i)]))"
  unfolding detect_cusps_def using foldl_detect_step [OF assms, of "[0..<length (ps ! i)]" "[]"]
  by simp

lemma foldl_detect_step_sound:
  assumes "foldl (detect_step ps i) acc js = Inr out"
  shows "\<exists>acc0. acc = Inr acc0 \<and> (\<forall>c \<in> set out. c \<in> set acc0 \<or> (\<exists>j. Cusp ps (i, j) = Inr c))"
  using assms
proof (induction js arbitrary: acc)
  case Nil
  then show ?case by simp
next
  case (Cons j js)
  from Cons.IH [OF Cons.prems [simplified]] obtain acc1 where
    a1: "detect_step ps i acc j = Inr acc1"
    and out: "\<forall>c \<in> set out. c \<in> set acc1 \<or> (\<exists>j. Cusp ps (i, j) = Inr c)"
    by blast
  from a1 obtain acc0 where acc: "acc = Inr acc0"
    by (cases acc) (auto simp: detect_step_def)
  from a1 have "\<forall>c \<in> set acc1. c \<in> set acc0 \<or> Cusp ps (i, j) = Inr c"
    by (auto simp: detect_step_def acc split: sum.splits if_splits)
  with out acc show ?case by blast
qed

lemma detect_cusps_on_path:
  assumes "detect_cusps ps i = Inr cusps" "c \<in> set cusps"
  shows "on_path ps i c \<and> (\<exists>j. c = vertex_cusp ps i j)"
  using foldl_detect_step_sound [OF assms(1) [unfolded detect_cusps_def]] assms(2)
  by (auto dest: Cusp_on_path)

text \<open>
  Claim C5. For sub-path \<open>i\<close>, the first loop of \<^verbatim>\<open>get_cusps\<close> returns, in the order of
  the segments, the cusps of exactly those vertices whose turning angle is above
  \<open>0.1 * pi\<close> in absolute value, where the turning angle is the one that the
  specification defines: \<open>atan2\<close> of the imaginary and the real part of the quotient
  \<open>r\<close> of the tangents, and 0 when a tangent is zero. Each cusp has the point and the
  angle of its vertex.
\<close>

theorem detect_cusps_exact:
  assumes "i < length ps"
  shows "\<exists>cusps. detect_cusps ps i = Inr cusps \<and>
           map index cusps =
             map (Pair i) (filter (\<lambda>j. \<bar>turning_angle (ps ! i) j\<bar> > 0.1 * pi) [0..<length (ps ! i)]) \<and>
           (\<forall>c \<in> set cusps.
              point c = seg_end (ps ! i ! snd (index c)) \<and>
              angle c = turning_angle (ps ! i) (snd (index c)))"
proof -
  have "map index (map (vertex_cusp ps i) js) = map (Pair i) js" for js
    by (simp add: vertex_cusp_def)
  then show ?thesis
    unfolding detect_cusps_eq [OF assms] MIN_CUSP_ANGLE_def
    by (auto simp: vertex_cusp_def)
qed

subsection \<open>Merging the cusps of a sub-path\<close>

lemma merge_on_path:
  assumes "on_path ps i self" "on_path ps i other"
  shows "\<exists>merged other'. merge self other = Some (Inr (merged, other')) \<and> on_path ps i other'"
proof -
  from assms have walk:
    "merge_walk (paths self ! fst (index self)) (snd (index self)) (snd (index other)) 0 =
       Some (Inr (0 + arc_length (ps ! i) (snd (index self)) (snd (index other))))"
    by (simp add: on_path_def merge_walk_arc)
  from assms show ?thesis
    unfolding merge_def walk by (auto simp: on_path_def Let_def)
qed

lemma merge_True:
  assumes "merge self other = Some (Inr (True, other'))"
  shows "cmod (point other - point self) \<le> MAX_CUSP_MERGE_DISTANCE \<and>
         (\<exists>d. merge_walk (paths self ! fst (index self)) (snd (index self))
                 (snd (index other)) 0 = Some (Inr d) \<and> d \<le> MAX_CUSP_MERGE_DISTANCE)"
  using assms unfolding merge_def
  by (auto simp: Let_def split: if_splits option.splits sum.splits)

lemma length_pop: "j < length xs \<Longrightarrow> length (pop j xs) = length xs - 1"
  by (simp add: pop_def)

lemma set_pop: "set (pop j xs) \<subseteq> set xs"
  unfolding pop_def by (metis set_append set_take_subset set_drop_subset Un_mono Un_absorb)

lemma merge_cusps_on_path:
  assumes "\<forall>c \<in> set cusps. on_path ps i c"
  shows "\<exists>out. merge_cusps j cusps = Some (Inr out) \<and> (\<forall>c \<in> set out. on_path ps i c)"
  using assms
proof (induction j cusps rule: merge_cusps.induct)
  case (1 j cusps)
  show ?case
  proof (cases "j < length cusps")
    case False
    with "1.prems" show ?thesis by (subst merge_cusps.simps) simp
  next
    case True
    let ?k = "(j + 1) mod length cusps"
    from True have "0 < length cusps" by auto
    then have k: "?k < length cusps" by simp
    with True "1.prems" have "on_path ps i (cusps ! j)" "on_path ps i (cusps ! ?k)" by auto
    from merge_on_path [OF this] obtain merged other' where
      m: "merge (cusps ! j) (cusps ! ?k) = Some (Inr (merged, other'))" and o: "on_path ps i other'"
      by blast
    show ?thesis
    proof (cases merged)
      case True
      have "\<forall>c \<in> set (pop j (cusps[?k := other'])). on_path ps i c"
        using "1.prems" o set_pop [of j "cusps[?k := other']"]
          set_update_subset_insert [of cusps ?k other']
        by auto
      from "1.IH"(1) [OF \<open>j < length cusps\<close> m refl refl True this] show ?thesis
        using m True \<open>j < length cusps\<close> by (subst merge_cusps.simps) simp
    next
      case False
      from "1.IH"(2) [OF \<open>j < length cusps\<close> m refl refl False "1.prems"] show ?thesis
        using m False \<open>j < length cusps\<close> by (subst merge_cusps.simps) simp
    qed
  qed
qed

lemma merge_cusps_length:
  "merge_cusps j cusps = Some (Inr out) \<Longrightarrow> length out \<le> length cusps"
proof (induction j cusps rule: merge_cusps.induct)
  case (1 j cusps)
  show ?case
  proof (cases "j < length cusps")
    case False
    with "1.prems" show ?thesis by (subst (asm) merge_cusps.simps) simp
  next
    case True
    let ?k = "(j + 1) mod length cusps"
    from "1.prems" True obtain merged other' where
      m: "merge (cusps ! j) (cusps ! ?k) = Some (Inr (merged, other'))"
      by (subst (asm) merge_cusps.simps) (auto split: option.splits sum.splits)
    show ?thesis
    proof (cases merged)
      case T: True
      with "1.prems" m True have "merge_cusps j (pop j (cusps[?k := other'])) = Some (Inr out)"
        by (subst (asm) merge_cusps.simps) simp
      from "1.IH"(1) [OF True m refl refl T this] True show ?thesis
        by (simp add: length_pop)
    next
      case F: False
      with "1.prems" m True have "merge_cusps (j + 1) cusps = Some (Inr out)"
        by (subst (asm) merge_cusps.simps) simp
      from "1.IH"(2) [OF True m refl refl F this] show ?thesis .
    qed
  qed
qed

lemma merge_rounds_le: "j \<le> length cusps \<Longrightarrow> merge_rounds j cusps \<le> length cusps - j"
proof (induction j cusps rule: merge_rounds.induct)
  case (1 j cusps)
  show ?case
  proof (cases "j < length cusps")
    case False
    then show ?thesis by (subst merge_rounds.simps) simp
  next
    case True
    let ?k = "(j + 1) mod length cusps"
    show ?thesis
    proof (cases "merge (cusps ! j) (cusps ! ?k)")
      case None
      with True show ?thesis by (subst merge_rounds.simps) simp
    next
      case (Some r)
      show ?thesis
      proof (cases r)
        case (Inl e)
        with Some True show ?thesis by (subst merge_rounds.simps) simp
      next
        case (Inr mo)
        obtain merged other' where mo: "mo = (merged, other')" by (cases mo)
        note m = Some [unfolded Inr mo]
        show ?thesis
        proof (cases merged)
          case T: True
          have "j \<le> length (pop j (cusps[?k := other']))" using True by (simp add: length_pop)
          from "1.IH"(1) [OF True m refl refl T this] True m T show ?thesis
            by (subst merge_rounds.simps) (simp add: length_pop)
        next
          case F: False
          from True have "j + 1 \<le> length cusps" by simp
          from "1.IH"(2) [OF True m refl refl F this] True m F show ?thesis
            by (subst merge_rounds.simps) simp
        qed
      qed
    qed
  qed
qed

lemma merge_cusps_merged:
  assumes "j < length cusps"
    "merge (cusps ! j) (cusps ! ((j + 1) mod length cusps)) = Some (Inr (True, other'))"
  shows "merge_cusps j cusps = merge_cusps j (pop j (cusps[(j + 1) mod length cusps := other']))"
  using assms by (subst merge_cusps.simps) simp

lemma merge_cusps_advance:
  assumes "j < length cusps"
    "merge (cusps ! j) (cusps ! ((j + 1) mod length cusps)) = Some (Inr (False, other'))"
  shows "merge_cusps j cusps = merge_cusps (j + 1) cusps"
  using assms by (subst merge_cusps.simps) simp

text \<open>
  Claim C10. For the cusps of a sub-path, the loop that merges them ends and returns a list.
  When the merge at index \<open>j\<close> succeeds, the loop goes on at the same index with a list
  that is shorter by one; when it fails, the loop goes on at index \<open>j + 1\<close> with the same
  list. The number of rounds of the loop is at most the length of the list it starts from.
\<close>

theorem merge_cusps_terminates:
  assumes "\<forall>c \<in> set cusps. on_path ps i c"
  shows "(\<exists>out. merge_cusps 0 cusps = Some (Inr out)) \<and>
         merge_rounds 0 cusps \<le> length cusps \<and>
         (\<forall>j cs other'. j < length cs \<longrightarrow>
            merge (cs ! j) (cs ! ((j + 1) mod length cs)) = Some (Inr (True, other')) \<longrightarrow>
              merge_cusps j cs = merge_cusps j (pop j (cs[(j + 1) mod length cs := other'])) \<and>
              length (pop j (cs[(j + 1) mod length cs := other'])) < length cs) \<and>
         (\<forall>j cs other'. j < length cs \<longrightarrow>
            merge (cs ! j) (cs ! ((j + 1) mod length cs)) = Some (Inr (False, other')) \<longrightarrow>
              merge_cusps j cs = merge_cusps (j + 1) cs)"
proof -
  from merge_cusps_on_path [OF assms, of 0]
  have "\<exists>out. merge_cusps 0 cusps = Some (Inr out)" by blast
  moreover have "merge_rounds 0 cusps \<le> length cusps"
    using merge_rounds_le [of 0 cusps] by simp
  moreover have "length (pop j (cs[k := other'])) < length cs" if "j < length cs"
    for j k and cs :: "cusp list" and other'
    using that by (simp add: length_pop)
  ultimately show ?thesis
    using merge_cusps_merged merge_cusps_advance by blast
qed

text \<open>
  Claim C8. For the cusps of a sub-path, the list that the merging loop returns is not longer
  than the list it starts from; and whenever \<^verbatim>\<open>merge\<close> succeeds for two cusps of
  the sub-path, the distance of their points is at most 15 and so is the arc length from the
  first to the second, the sum of the chord lengths of the segments in between.
\<close>

theorem merge_cusps_bounds:
  assumes "\<forall>c \<in> set cusps. on_path ps i c"
  shows "(\<exists>out. merge_cusps 0 cusps = Some (Inr out) \<and> length out \<le> length cusps) \<and>
         (\<forall>self other other'. on_path ps i self \<longrightarrow> on_path ps i other \<longrightarrow>
            merge self other = Some (Inr (True, other')) \<longrightarrow>
              cmod (point other - point self) \<le> 15 \<and>
              arc_length (ps ! i) (snd (index self)) (snd (index other)) \<le> 15)"
proof -
  from merge_cusps_on_path [OF assms, of 0] obtain out where
    out: "merge_cusps 0 cusps = Some (Inr out)" by blast
  from merge_cusps_length [OF this] out
  have "\<exists>out. merge_cusps 0 cusps = Some (Inr out) \<and> length out \<le> length cusps" by blast
  moreover have "cmod (point other - point self) \<le> 15 \<and>
      arc_length (ps ! i) (snd (index self)) (snd (index other)) \<le> 15"
    if s: "on_path ps i self" and o: "on_path ps i other"
      and m: "merge self other = Some (Inr (True, other'))" for self other other'
  proof -
    from s o have "merge_walk (paths self ! fst (index self)) (snd (index self))
        (snd (index other)) 0 = Some (Inr (0 + arc_length (ps ! i) (snd (index self)) (snd (index other))))"
      by (simp add: on_path_def merge_walk_arc)
    with merge_True [OF m] show ?thesis
      by (simp add: MAX_CUSP_MERGE_DISTANCE_def)
  qed
  ultimately show ?thesis by blast
qed

text \<open>
  Claim C4. When the first loop finds exactly one cusp on a sub-path, the merging loop
  compares that cusp with itself: the cyclic successor of index 0 is index 0, the distance
  of the point to itself and the length of the walk are 0, \<^verbatim>\<open>merge\<close> succeeds, the cusp
  is removed and the loop returns the empty list.
\<close>

theorem single_cusp_removed:
  assumes "detect_cusps ps i = Inr [c]"
  shows "[c] ! ((0 + 1) mod length [c]) = c \<and>
         cmod (point c - point c) = 0 \<and>
         merge_walk (ps ! i) (snd (index c)) (snd (index c)) 0 = Some (Inr 0) \<and>
         merge c c = Some (Inr (True, c)) \<and>
         merge_cusps 0 [c] = Some (Inr [])"
proof -
  from detect_cusps_on_path [OF assms, of c] obtain j where
    on: "on_path ps i c" and c: "c = vertex_cusp ps i j" by auto
  have walk: "merge_walk p k k 0 = Some (Inr 0)" for p k
    by (subst merge_walk.simps) simp
  have a: "get_angle (tangent1 c) (tangent2 c) = angle c"
    by (simp add: c vertex_cusp_def turning_angle_def get_angle_def Let_def)
  from on have m: "merge c c = Some (Inr (True, c))"
    by (simp add: merge_def walk MAX_CUSP_MERGE_DISTANCE_def a on_path_def)
  have "merge_cusps 0 [c] = merge_cusps 0 (pop 0 ([c][(0 + 1) mod length [c] := c]))"
    by (rule merge_cusps_merged) (simp_all add: m)
  also have "\<dots> = Some (Inr [])"
    by (subst merge_cusps.simps) (simp add: pop_def)
  finally show ?thesis using m walk by simp
qed

subsection \<open>Connecting cusps\<close>

lemma mult_pos_iff_sgn:
  fixes x y :: real
  assumes "x \<noteq> 0" "y \<noteq> 0"
  shows "x * y > 0 \<longleftrightarrow> sgn x = sgn y"
  using assms by (auto simp: zero_less_mult_iff sgn_real_def)

text \<open>
  Claim C3. For two cusps \<open>a\<close> and \<open>b\<close> with different indices whose points are apart by
  more than 0 and at most \<open>MAX_CROSSING_DISTANCE\<close>, and for either orientation,
  \<^verbatim>\<open>_try_connect\<close> holds if and only if \<open>f2\<close> and \<open>f3\<close> have the same sign, \<open>f0\<close> and
  \<open>f1\<close> are below \<open>0.3 * pi\<close> in absolute value and \<open>f2\<close> and \<open>f3\<close> are above it, where
  \<open>f0\<close> is the angle from the incoming tangent of \<open>a\<close> to \<open>diff\<close>, \<open>f1\<close> the angle
  from \<open>diff\<close> to the outgoing tangent of \<open>b\<close> (the incoming one when swapped), \<open>f2\<close>
  the angle from \<open>diff\<close> to the outgoing tangent of \<open>a\<close>, \<open>f3\<close> the angle from the
  incoming tangent of \<open>b\<close> (the outgoing one when swapped) to \<open>diff\<close>, and \<open>diff\<close> is
  the point of \<open>b\<close> minus the point of \<open>a\<close>.
\<close>

theorem try_connect_iff:
  assumes "index a \<noteq> index b"
    and "0 < cmod (point b - point a)"
    and "cmod (point b - point a) \<le> MAX_CROSSING_DISTANCE"
  shows "try_connect a b swapped \<longleftrightarrow>
          (let diff = point b - point a;
               f0 = get_angle (tangent1 a) diff;
               f1 = get_angle diff (if swapped then tangent1 b else tangent2 b);
               f2 = get_angle diff (tangent2 a);
               f3 = get_angle (if swapped then tangent2 b else tangent1 b) diff
           in sgn f2 = sgn f3 \<and> \<bar>f0\<bar> < 0.3 * pi \<and> \<bar>f1\<bar> < 0.3 * pi \<and>
              \<bar>f2\<bar> > 0.3 * pi \<and> \<bar>f3\<bar> > 0.3 * pi)"
proof -
  define t where "t = 0.3 * pi"
  have t: "0 < t" by (simp add: t_def)
  from assms(2) have ne: "point b \<noteq> point a" by auto
  from assms(3) have near: "\<not> cmod (point b - point a) > MAX_CROSSING_DISTANCE" by simp
  have *: "x * y > 0 \<and> A \<and> B \<and> \<bar>x\<bar> > t \<and> \<bar>y\<bar> > t \<longleftrightarrow>
           sgn x = sgn y \<and> A \<and> B \<and> \<bar>x\<bar> > t \<and> \<bar>y\<bar> > t"
    for x y :: real and A B
  proof (cases "\<bar>x\<bar> > t \<and> \<bar>y\<bar> > t")
    case True
    with t have "x \<noteq> 0" "y \<noteq> 0" by auto
    from mult_pos_iff_sgn [OF this] show ?thesis by simp
  next
    case False
    then show ?thesis by auto
  qed
  show ?thesis
    unfolding try_connect_def Let_def t_def [symmetric]
    using ne near by (cases swapped) (simp_all only: if_False if_True split_conv *)
qed

lemma try_connect_True_swap: "try_connect a b True = try_connect a (swap_tangents b) False"
  by (simp add: try_connect_def swap_tangents_def Let_def)

text \<open>
  Claim C6. For two cusps with different indices: on the same sub-path,
  \<^verbatim>\<open>connect\<close> is the test in the forward orientation; on different sub-paths,
  \<^verbatim>\<open>connect\<close> holds if and only if the test succeeds in the forward or in the reverse
  orientation; and the test in the reverse orientation is the forward test with the two
  tangents of \<open>b\<close> exchanged and \<open>a\<close> unchanged.
\<close>

theorem connect_orientations:
  assumes "index a \<noteq> index b"
  shows "(fst (index a) = fst (index b) \<longrightarrow> connect a b = try_connect a b False) \<and>
         (fst (index a) \<noteq> fst (index b) \<longrightarrow>
            connect a b = (try_connect a b False \<or> try_connect a b True)) \<and>
         try_connect a b True = try_connect a (swap_tangents b) False"
  using assms by (auto simp: connect_def try_connect_True_swap)

lemma try_connect_far:
  "cmod (point b - point a) > MAX_CROSSING_DISTANCE \<Longrightarrow> \<not> try_connect a b r"
  by (auto simp: try_connect_def Let_def MAX_CROSSING_DISTANCE_def)

lemma connect_near:
  assumes "connect a b"
  shows "index a \<noteq> index b \<and> cmod (point b - point a) \<le> MAX_CROSSING_DISTANCE"
proof -
  from assms obtain r where "try_connect a b r" and ne: "index a \<noteq> index b"
    by (auto simp: connect_def split: if_splits)
  with try_connect_far [where a = a and b = b and r = r] show ?thesis
    by (auto simp: not_less [symmetric])
qed

lemma foldl_add_line:
  "foldl (\<lambda>result other. if connect c other then result @ [line_of c other] else result) result cs =
     result @ map (line_of c) (filter (connect c) cs)"
  by (induction cs arbitrary: result) auto

lemma product_lines:
  "map (\<lambda>(c, other). line_of c other)
     (filter (\<lambda>(c, other). connect c other) (List.product as cs)) =
   concat (map (\<lambda>c. map (line_of c) (filter (connect c) cs)) as)"
proof (induction as)
  case Nil
  then show ?case by simp
next
  case (Cons a as)
  have "map (\<lambda>(c, other). line_of c other)
             (filter (\<lambda>(c, other). connect c other) (map (Pair a) cs)) =
          map (line_of a) (filter (connect a) cs)"
    by (induction cs) auto
  with Cons show ?case by simp
qed

lemma foldl_append_concat: "foldl (\<lambda>result c. result @ f c) result as = result @ concat (map f as)"
  by (induction as arbitrary: result) auto

lemma add_lines_eq:
  "add_lines cusps result =
     result @ map (\<lambda>(c, other). line_of c other)
                (filter (\<lambda>(c, other). connect c other) (List.product cusps cusps))"
  unfolding add_lines_def foldl_add_line product_lines by (rule foldl_append_concat)

text \<open>
  Claim C9. \<^verbatim>\<open>connect\<close> holds only for cusps with different indices whose points are at
  most 64 apart; \<^verbatim>\<open>_try_connect\<close> fails in both orientations when the points are more
  than 64 apart; and every line that the second loop of \<^verbatim>\<open>augment_glyph\<close> appends is
  the line of two cusps of the list with different indices and points at most 64 apart.
\<close>

theorem connector_excludes:
  "(\<forall>a b. connect a b \<longrightarrow> index a \<noteq> index b \<and> cmod (point b - point a) \<le> 64) \<and>
   (\<forall>a b r. cmod (point b - point a) > 64 \<longrightarrow> \<not> try_connect a b r) \<and>
   (\<forall>l \<in> set (add_lines cusps []).
      \<exists>a \<in> set cusps. \<exists>b \<in> set cusps.
        l = line_of a b \<and> index a \<noteq> index b \<and> cmod (point b - point a) \<le> 64)"
proof -
  have "\<exists>a \<in> set cusps. \<exists>b \<in> set cusps.
        l = line_of a b \<and> index a \<noteq> index b \<and> cmod (point b - point a) \<le> 64"
    if "l \<in> set (add_lines cusps [])" for l
    using that connect_near unfolding add_lines_eq MAX_CROSSING_DISTANCE_def
    by auto
  then show ?thesis
    using connect_near try_connect_far unfolding MAX_CROSSING_DISTANCE_def by blast
qed

text \<open>
  Claim C1, as amended. The second loop of \<^verbatim>\<open>augment_glyph\<close> appends one line for every
  ordered pair of cusps of the list, in the order of the list, for which
  \<^verbatim>\<open>connect\<close> holds, and \<^verbatim>\<open>connect\<close> holds when the indices differ and the test
  succeeds in an allowed orientation: a line is appended once for the ordered pair, not once
  for each orientation. Two cusps that are connected in both orders give two lines.
\<close>

theorem add_lines_ordered_pairs:
  "add_lines cusps [] =
     map (\<lambda>(c, other). line_of c other)
       (filter (\<lambda>(c, other). connect c other) (List.product cusps cusps)) \<and>
   (connect a b \<longleftrightarrow>
      index a \<noteq> index b \<and>
      (try_connect a b False \<or> fst (index a) \<noteq> fst (index b) \<and> try_connect a b True))"
  by (auto simp: add_lines_eq connect_def)

subsection \<open>The whole analysis returns\<close>

text \<open>
  For all paths, \<^verbatim>\<open>get_cusps\<close> returns a list of cusps: no index is out of range,
  the assertion of \<^verbatim>\<open>merge\<close> holds and the loops end. So does
  \<^verbatim>\<open>augment_glyph\<close> when segments of non-zero length remain.
\<close>

lemma foldl_get_cusps_step:
  assumes "\<forall>i \<in> set is. i < length ps"
  shows "\<exists>cusps. foldl (get_cusps_step ps) (Some (Inr result)) is = Some (Inr cusps)"
  using assms
proof (induction "is" arbitrary: result)
  case Nil
  then show ?case by simp
next
  case (Cons i "is")
  then have i: "i < length ps" by simp
  from detect_cusps_eq [OF i] obtain cs where d: "detect_cusps ps i = Inr cs" by blast
  with detect_cusps_on_path have "\<forall>c \<in> set cs. on_path ps i c" by blast
  from merge_cusps_on_path [OF this, of 0] obtain out where
    m: "merge_cusps 0 cs = Some (Inr out)" by blast
  have "get_cusps_step ps (Some (Inr result)) i = Some (Inr (result @ out))"
    by (simp add: get_cusps_step_def d m)
  with Cons.IH [of "result @ out"] Cons.prems show ?case by simp
qed

lemma get_cusps_returns: "\<exists>cusps. get_cusps ps = Some (Inr cusps)"
  unfolding get_cusps_def by (rule foldl_get_cusps_step) simp

lemma augment_glyph_returns:
  assumes "filter (\<lambda>element. seg_start element \<noteq> seg_end element) parsed \<noteq> []"
  shows "\<exists>result. augment_glyph parsed = Some (Inr result)"
proof -
  let ?p = "filter (\<lambda>element. seg_start element \<noteq> seg_end element) parsed"
  from assms obtain ps where b: "break_path ?p = Inr ps"
    by (cases ?p) (simp_all add: break_path_def)
  from get_cusps_returns obtain cusps where g: "get_cusps ps = Some (Inr cusps)" by blast
  from assms show ?thesis
    by (simp add: augment_glyph_def Let_def b g)
qed

subsection \<open>A second run of the merging loop\<close>

text \<open>
  The arc from one vertex forward to another runs over the segments after the first up to
  the second, around the end of the path when the second comes first. Arcs add up, and on a
  contiguous path the distance of two vertices is at most the arc between them.
\<close>

lemma arc_indices_le:
  assumes "j \<le> t" "t < n"
  shows "arc_indices n j t = [Suc j..<Suc t]"
  using assms
proof (induction "t - j" arbitrary: j)
  case 0
  then show ?case by (simp add: arc_indices_same)
next
  case (Suc d)
  then have jt: "j \<noteq> t" "j < n" "Suc j \<le> t" by auto
  then have m: "(j + 1) mod n = Suc j" using Suc.prems by simp
  from Suc.hyps(2) have "d = t - Suc j" by simp
  from Suc.hyps(1) [OF this jt(3) Suc.prems(2)]
  have "arc_indices n (Suc j) t = [Suc (Suc j)..<Suc t]" .
  moreover have "[Suc j..<Suc t] = Suc j # [Suc (Suc j)..<Suc t]"
    using jt(3) by (simp add: upt_conv_Cons del: upt_Suc)
  ultimately show ?case
    using arc_indices_step [OF jt(2) Suc.prems(2) jt(1)] unfolding m by simp
qed

lemma arc_indices_gt:
  assumes "t < j" "j < n"
  shows "arc_indices n j t = [Suc j..<n] @ [0..<Suc t]"
  using assms
proof (induction "n - j" arbitrary: j)
  case 0
  then show ?case by simp
next
  case (Suc d)
  from Suc.prems have tn: "t < n" and jt: "j \<noteq> t" by auto
  note step = arc_indices_step [OF Suc.prems(2) tn jt]
  show ?case
  proof (cases "Suc j = n")
    case True
    then have m: "(j + 1) mod n = 0" by simp
    have "arc_indices n 0 t = [Suc 0..<Suc t]"
      by (rule arc_indices_le) (use tn in simp_all)
    moreover have "[0..<Suc t] = 0 # [Suc 0..<Suc t]"
      by (simp add: upt_conv_Cons del: upt_Suc)
    moreover have "[Suc j..<n] = []" using True by simp
    ultimately show ?thesis
      using step unfolding m by simp
  next
    case False
    with Suc.prems have lt: "Suc j < n" by simp
    then have m: "(j + 1) mod n = Suc j" by simp
    from Suc.hyps(2) have "d = n - Suc j" by simp
    from Suc.hyps(1) [OF this _ lt] Suc.prems(1)
    have "arc_indices n (Suc j) t = [Suc (Suc j)..<n] @ [0..<Suc t]" by simp
    moreover have "[Suc j..<n] = Suc j # [Suc (Suc j)..<n]"
      using lt by (simp add: upt_conv_Cons)
    ultimately show ?thesis
      using step unfolding m by simp
  qed
qed

lemma arc_length_nonneg: "0 \<le> arc_length p a b"
  unfolding arc_length_def by (rule sum_list_nonneg) (auto simp: chord_def)

lemma arc_length_add_le:
  assumes "a \<le> b" "b \<le> c" "c < length p"
  shows "arc_length p a c = arc_length p a b + arc_length p b c"
proof -
  have "[Suc a..<Suc c] = [Suc a..<Suc b] @ [Suc b..<Suc c]"
    using assms by (metis Suc_le_mono upt_add_eq_append le_Suc_ex)
  with assms show ?thesis
    by (simp add: arc_length_def arc_indices_le)
qed

lemma arc_length_add_wrap1:
  assumes "c < a" "a \<le> b" "b < length p"
  shows "arc_length p a c = arc_length p a b + arc_length p b c"
proof -
  have "[Suc a..<length p] = [Suc a..<Suc b] @ [Suc b..<length p]"
    using assms by (metis Suc_le_mono Suc_leI upt_add_eq_append le_Suc_ex)
  with assms show ?thesis
    by (simp add: arc_length_def arc_indices_le arc_indices_gt)
qed

lemma arc_length_add_wrap2:
  assumes "c < a" "b \<le> c" "a < length p"
  shows "arc_length p a c = arc_length p a b + arc_length p b c"
proof -
  have "[0..<Suc c] = [0..<Suc b] @ [Suc b..<Suc c]"
    using assms by (metis Suc_le_mono upt_add_eq_append le_Suc_ex zero_le)
  with assms show ?thesis
    by (simp add: arc_length_def arc_indices_le arc_indices_gt)
qed

lemma contiguous_nth:
  "contiguous p \<Longrightarrow> Suc k < length p \<Longrightarrow> seg_end (p ! k) = seg_start (p ! Suc k)"
proof (induction p arbitrary: k rule: contiguous.induct)
  case (1 a b rest)
  then show ?case by (cases k) auto
qed auto

lemma arc_length_Suc:
  assumes "a \<le> c" "Suc c < length p"
  shows "arc_length p a (Suc c) = arc_length p a c + chord (p ! Suc c)"
  using assms by (simp add: arc_length_def arc_indices_le)

lemma chord_le_arc:
  assumes "contiguous p" "a \<le> c" "c < length p"
  shows "cmod (seg_end (p ! c) - seg_end (p ! a)) \<le> arc_length p a c"
  using assms(2,3)
proof (induction c)
  case 0
  then show ?case by (simp add: arc_length_def arc_indices_same)
next
  case (Suc c)
  show ?case
  proof (cases "a = Suc c")
    case True
    then show ?thesis by (simp add: arc_length_def arc_indices_same)
  next
    case False
    with Suc.prems have ac: "a \<le> c" "c < length p" by auto
    have "seg_end (p ! Suc c) - seg_end (p ! a) =
          (seg_end (p ! Suc c) - seg_start (p ! Suc c)) + (seg_end (p ! c) - seg_end (p ! a))"
      using contiguous_nth [OF assms(1) Suc.prems(2)] by simp
    then have "cmod (seg_end (p ! Suc c) - seg_end (p ! a)) \<le>
          chord (p ! Suc c) + cmod (seg_end (p ! c) - seg_end (p ! a))"
      unfolding chord_def by (metis norm_triangle_ineq)
    with Suc.IH [OF ac] arc_length_Suc [OF ac(1) Suc.prems(2)] show ?thesis by simp
  qed
qed


text \<open>What \<^verbatim>\<open>merge\<close> returns for two such cusps of a sub-path.\<close>

lemma merge_fail:
  assumes "cusp_ok ps i self" "cusp_ok ps i other"
    and "15 < arc_length (ps ! i) (snd (index self)) (snd (index other))"
  shows "merge self other = Some (Inr (False, other))"
proof -
  from assms have walk:
    "merge_walk (paths self ! fst (index self)) (snd (index self)) (snd (index other)) 0 =
       Some (Inr (0 + arc_length (ps ! i) (snd (index self)) (snd (index other))))"
    by (simp add: cusp_ok_def on_path_def merge_walk_arc)
  from assms show ?thesis
    unfolding merge_def walk
    by (simp add: cusp_ok_def on_path_def MAX_CUSP_MERGE_DISTANCE_def)
qed

lemma merge_cases:
  assumes "cusp_ok ps i self" "cusp_ok ps i other"
  shows "(merge self other = Some (Inr (False, other)) \<and>
          (15 < cmod (seg_end (ps ! i ! snd (index other)) - seg_end (ps ! i ! snd (index self))) \<or>
           15 < arc_length (ps ! i) (snd (index self)) (snd (index other)))) \<or>
         (\<exists>other'. merge self other = Some (Inr (True, other')) \<and> cusp_ok ps i other' \<and>
            (snd (index other') = snd (index self) \<or> snd (index other') = snd (index other)))"
proof -
  from assms have walk:
    "merge_walk (paths self ! fst (index self)) (snd (index self)) (snd (index other)) 0 =
       Some (Inr (0 + arc_length (ps ! i) (snd (index self)) (snd (index other))))"
    by (simp add: cusp_ok_def on_path_def merge_walk_arc)
  from assms show ?thesis
    unfolding merge_def walk
    by (auto simp: cusp_ok_def on_path_def MAX_CUSP_MERGE_DISTANCE_def Let_def)
qed

lemma stable_merge_cusps:
  assumes "stable cs"
  shows "merge_cusps j cs = Some (Inr cs)"
proof (induction "length cs - j" arbitrary: j)
  case 0
  then show ?case by (subst merge_cusps.simps) simp
next
  case (Suc d)
  then have j: "j < length cs" by simp
  with assms have "merge (cs ! j) (cs ! ((j + 1) mod length cs)) =
      Some (Inr (False, cs ! ((j + 1) mod length cs)))"
    by (simp add: stable_def)
  from merge_cusps_advance [OF j this] Suc.hyps(1) [of "j + 1"] Suc.hyps(2) show ?case
    by simp
qed


lemma merge_False_other: "merge self other = Some (Inr (False, other')) \<Longrightarrow> other' = other"
  unfolding merge_def
  by (auto simp: Let_def split: if_splits option.splits sum.splits)

lemma nth_pop:
  "j < length xs \<Longrightarrow> m < length xs - 1 \<Longrightarrow> pop j xs ! m = (if m < j then xs ! m else xs ! Suc m)"
  by (auto simp: pop_def nth_append min_def)

lemma scan_inv_advance:
  assumes c: "contiguous (ps ! i)"
    and inv: "scan_inv ps i j cs"
    and j: "Suc j < length cs"
    and m: "merge (cs ! j) (cs ! Suc j) = Some (Inr (False, other'))"
  shows "scan_inv ps i (Suc j) cs"
proof -
  let ?a = "snd (index (cs ! j))" and ?b = "snd (index (cs ! Suc j))"
  from inv j have ok: "cusp_ok ps i (cs ! j)" "cusp_ok ps i (cs ! Suc j)"
    by (auto simp: scan_inv_def)
  from inv j have lt: "?a < ?b" by (auto simp: scan_inv_def)
  from ok have b: "?b < length (ps ! i)" by (simp add: cusp_ok_def on_path_def)
  from chord_le_arc [OF c _ b, of ?a] lt
  have "cmod (seg_end (ps ! i ! ?b) - seg_end (ps ! i ! ?a)) \<le> arc_length (ps ! i) ?a ?b"
    by simp
  with merge_cases [OF ok] m have "15 < arc_length (ps ! i) ?a ?b" by auto
  with inv show ?thesis
    unfolding scan_inv_def by (auto simp: less_Suc_eq)
qed


lemma scan_inv_merged:
  assumes inv: "scan_inv ps i j cs"
    and j: "Suc j < length cs"
    and ok: "cusp_ok ps i other'"
    and v: "snd (index other') = snd (index (cs ! j)) \<or> snd (index other') = snd (index (cs ! Suc j))"
  shows "scan_inv ps i j (pop j (cs[Suc j := other']))"
proof -
  let ?cs = "pop j (cs[Suc j := other'])"
  let ?v = "\<lambda>c. snd (index c)"
  from j have len: "length ?cs = length cs - 1" by (simp add: length_pop)
  have nth: "?cs ! m = (if m < j then cs ! m else if m = j then other' else cs ! Suc m)"
    if "m < length cs - 1" for m
    using that j by (simp add: nth_pop)
  from inv have sorted: "a < b \<Longrightarrow> b < length cs \<Longrightarrow> ?v (cs ! a) < ?v (cs ! b)" for a b
    by (simp add: scan_inv_def)
  from inv have far: "k < j \<Longrightarrow> Suc k < length cs \<Longrightarrow>
      15 < arc_length (ps ! i) (?v (cs ! k)) (?v (cs ! Suc k))" for k
    by (simp add: scan_inv_def)
  from j sorted [of j "Suc j"] v have lo: "?v (cs ! j) \<le> ?v other'" and hi: "?v other' \<le> ?v (cs ! Suc j)"
    by auto
  have "\<forall>c \<in> set ?cs. cusp_ok ps i c"
    using inv ok set_pop [of j "cs[Suc j := other']"] set_update_subset_insert [of cs "Suc j" other']
    unfolding scan_inv_def by blast
  moreover have "?v (?cs ! a) < ?v (?cs ! b)" if ab: "a < b" "b < length ?cs" for a b
  proof -
    from ab len have a: "a < length cs - 1" and b: "b < length cs - 1" by auto
    note na = nth [OF a] and nb = nth [OF b]
    from a b have sa: "Suc a < length cs" and sb: "Suc b < length cs" by auto
    consider "b < j" | "a < j" "b = j" | "a < j" "j < b" | "a = j" | "j < a"
      using ab by linarith
    then show ?thesis
    proof cases
      case 1
      with ab have "?cs ! a = cs ! a" "?cs ! b = cs ! b" unfolding na nb by simp_all
      with ab b sorted [of a b] show ?thesis by simp
    next
      case 2
      then have "?cs ! a = cs ! a" "?cs ! b = other'" unfolding na nb by simp_all
      with sorted [of a j] j lo 2 show ?thesis by simp
    next
      case 3
      then have "?cs ! a = cs ! a" "?cs ! b = cs ! Suc b" unfolding na nb by simp_all
      with sorted [of a "Suc b"] sb ab show ?thesis by simp
    next
      case 4
      with ab have "?cs ! a = other'" "?cs ! b = cs ! Suc b" unfolding na nb by simp_all
      with sorted [of "Suc j" "Suc b"] ab sb hi 4 show ?thesis by simp
    next
      case 5
      with ab have "?cs ! a = cs ! Suc a" "?cs ! b = cs ! Suc b" unfolding na nb by simp_all
      with sorted [of "Suc a" "Suc b"] ab sb show ?thesis by simp
    qed
  qed
  moreover have "15 < arc_length (ps ! i) (?v (?cs ! k)) (?v (?cs ! Suc k))"
    if k: "k < j" "Suc k < length ?cs" for k
  proof -
    from k len have a: "k < length cs - 1" and b: "Suc k < length cs - 1" by auto
    note na = nth [OF a] and nb = nth [OF b]
    show ?thesis
    proof (cases "Suc k = j")
      case False
      with k have "?cs ! k = cs ! k" "?cs ! Suc k = cs ! Suc k" unfolding na nb by simp_all
      moreover from b have "Suc k < length cs" by auto
      ultimately show ?thesis using k far [of k] by simp
    next
      case True
      with k have e: "?cs ! k = cs ! k" "?cs ! Suc k = other'" unfolding na nb by simp_all
      from far [of k] k True j have f: "15 < arc_length (ps ! i) (?v (cs ! k)) (?v (cs ! j))"
        by simp
      from inv j have "cusp_ok ps i (cs ! Suc j)" by (simp add: scan_inv_def)
      then have n: "?v (cs ! Suc j) < length (ps ! i)" by (simp add: cusp_ok_def on_path_def)
      from sorted [of k j] k j have kj: "?v (cs ! k) \<le> ?v (cs ! j)" by simp
      from hi n have "?v other' < length (ps ! i)" by simp
      from arc_length_add_le [OF kj lo this]
      have "arc_length (ps ! i) (?v (cs ! k)) (?v other') =
            arc_length (ps ! i) (?v (cs ! k)) (?v (cs ! j)) +
            arc_length (ps ! i) (?v (cs ! j)) (?v other')" .
      with f arc_length_nonneg [of "ps ! i" "?v (cs ! j)" "?v other'"]
      have "15 < arc_length (ps ! i) (?v (cs ! k)) (?v other')" by simp
      with e show ?thesis by simp
    qed
  qed
  ultimately show ?thesis unfolding scan_inv_def by blast
qed


lemma wrap_fail_stable:
  assumes inv: "scan_inv ps i j cs"
    and j: "Suc j = length cs"
    and m: "merge (cs ! j) (cs ! 0) = Some (Inr (False, other'))"
  shows "stable cs"
  unfolding stable_def
proof (intro allI impI)
  fix k assume k: "k < length cs"
  show "merge (cs ! k) (cs ! ((k + 1) mod length cs)) =
          Some (Inr (False, cs ! ((k + 1) mod length cs)))"
  proof (cases "k = j")
    case True
    with j have "(k + 1) mod length cs = 0" by simp
    with m merge_False_other [OF m] True show ?thesis by simp
  next
    case False
    with k j have kj: "k < j" "Suc k < length cs" by auto
    then have e: "(k + 1) mod length cs = Suc k" by simp
    from inv kj k have "cusp_ok ps i (cs ! k)" "cusp_ok ps i (cs ! Suc k)"
      and "15 < arc_length (ps ! i) (snd (index (cs ! k))) (snd (index (cs ! Suc k)))"
      by (auto simp: scan_inv_def)
    from merge_fail [OF this] show ?thesis unfolding e .
  qed
qed

lemma wrap_merged_stable:
  assumes inv: "scan_inv ps i j cs"
    and j: "Suc j = length cs" "2 \<le> j"
    and ok: "cusp_ok ps i other'"
    and v: "snd (index other') = snd (index (cs ! j)) \<or> snd (index other') = snd (index (cs ! 0))"
  shows "stable (pop j (cs[0 := other']))"
proof -
  let ?cs = "pop j (cs[0 := other'])"
  let ?v = "\<lambda>c. snd (index c)"
  let ?p = "ps ! i"
  from j have len: "length ?cs = j" by (simp add: length_pop)
  from j have pos: "0 < length cs" by (cases cs) auto
  have nth: "?cs ! m = (if m = 0 then other' else cs ! m)" if "m < j" for m
    using that j pos by (simp add: nth_pop nth_list_update)
  from inv have sorted: "a < b \<Longrightarrow> b < length cs \<Longrightarrow> ?v (cs ! a) < ?v (cs ! b)" for a b
    by (simp add: scan_inv_def)
  from inv have far: "k < j \<Longrightarrow> Suc k < length cs \<Longrightarrow>
      15 < arc_length ?p (?v (cs ! k)) (?v (cs ! Suc k))" for k
    by (simp add: scan_inv_def)
  from inv have oks: "m < length cs \<Longrightarrow> cusp_ok ps i (cs ! m)" for m
    by (simp add: scan_inv_def)
  from oks [of j] j have nj: "?v (cs ! j) < length ?p" by (simp add: cusp_ok_def on_path_def)
  show ?thesis
    unfolding stable_def len
  proof (intro allI impI)
    fix k assume k: "k < j"
    show "merge (?cs ! k) (?cs ! ((k + 1) mod j)) = Some (Inr (False, ?cs ! ((k + 1) mod j)))"
    proof (cases "Suc k = j")
      case True
      then have e: "(k + 1) mod j = 0" by simp
      from True j have k0: "k \<noteq> 0" by auto
      with k have ck: "?cs ! k = cs ! k" by (simp add: nth)
      from j have c0: "?cs ! 0 = other'" by (simp add: nth)
      from far [of k] k True j have f: "15 < arc_length ?p (?v (cs ! k)) (?v (cs ! j))"
        by simp
      have "15 < arc_length ?p (?v (cs ! k)) (?v other')"
      proof (cases "?v other' = ?v (cs ! j)")
        case True
        with f show ?thesis by simp
      next
        case False
        with v have o: "?v other' = ?v (cs ! 0)" by simp
        from sorted [of 0 k] k0 k j have "?v (cs ! 0) < ?v (cs ! k)" by simp
        moreover from sorted [of k j] k j have "?v (cs ! k) \<le> ?v (cs ! j)" by simp
        ultimately have "arc_length ?p (?v (cs ! k)) (?v (cs ! 0)) =
            arc_length ?p (?v (cs ! k)) (?v (cs ! j)) + arc_length ?p (?v (cs ! j)) (?v (cs ! 0))"
          using nj by (rule arc_length_add_wrap1)
        with f arc_length_nonneg [of ?p "?v (cs ! j)" "?v (cs ! 0)"] o show ?thesis by simp
      qed
      with merge_fail [OF oks [of k] ok] k j show ?thesis
        unfolding e ck c0 by simp
    next
      case False
      with k have sk: "Suc k < j" by simp
      then have e: "(k + 1) mod j = Suc k" by simp
      from sk have cs: "?cs ! Suc k = cs ! Suc k" by (simp add: nth)
      from far [of k] k sk j have f: "15 < arc_length ?p (?v (cs ! k)) (?v (cs ! Suc k))"
        by simp
      show ?thesis
      proof (cases "k = 0")
        case False
        with k have ck: "?cs ! k = cs ! k" by (simp add: nth)
        from merge_fail [OF oks [of k] oks [of "Suc k"] f] k sk j show ?thesis
          unfolding e ck cs by simp
      next
        case True
        with k have ck: "?cs ! k = other'" by (simp add: nth)
        have "15 < arc_length ?p (?v other') (?v (cs ! Suc k))"
        proof (cases "?v other' = ?v (cs ! 0)")
          case T: True
          with f True show ?thesis by simp
        next
          case F: False
          with v have o: "?v other' = ?v (cs ! j)" by simp
          from sorted [of "Suc k" j] sk j have "?v (cs ! Suc k) < ?v (cs ! j)" by simp
          moreover from sorted [of 0 "Suc k"] sk j have "?v (cs ! 0) \<le> ?v (cs ! Suc k)" by simp
          ultimately have "arc_length ?p (?v (cs ! j)) (?v (cs ! Suc k)) =
              arc_length ?p (?v (cs ! j)) (?v (cs ! 0)) +
              arc_length ?p (?v (cs ! 0)) (?v (cs ! Suc k))"
            using nj by (rule arc_length_add_wrap2)
          with f True arc_length_nonneg [of ?p "?v (cs ! j)" "?v (cs ! 0)"] o show ?thesis
            by simp
        qed
        with merge_fail [OF ok oks [of "Suc k"]] sk j show ?thesis
          unfolding e ck cs by simp
      qed
    qed
  qed
qed


lemma merge_cusps_stable_aux:
  assumes c: "contiguous (ps ! i)"
  shows "scan_inv ps i j cs \<Longrightarrow> j < length cs \<Longrightarrow> merge_cusps j cs = Some (Inr out) \<Longrightarrow>
         stable out \<or> length out \<le> 1"
proof (induction j cs rule: merge_cusps.induct)
  case (1 j cs)
  let ?k = "(j + 1) mod length cs"
  note inv = "1.prems"(1) and jlt = "1.prems"(2) and res = "1.prems"(3)
  from jlt have "0 < length cs" by auto
  then have k: "?k < length cs" by simp
  from inv jlt k have oks: "cusp_ok ps i (cs ! j)" "cusp_ok ps i (cs ! ?k)"
    by (auto simp: scan_inv_def)
  from merge_cases [OF oks] consider
    (fail) "merge (cs ! j) (cs ! ?k) = Some (Inr (False, cs ! ?k))"
  | (merged) other' where "merge (cs ! j) (cs ! ?k) = Some (Inr (True, other'))"
      "cusp_ok ps i other'"
      "snd (index other') = snd (index (cs ! j)) \<or> snd (index other') = snd (index (cs ! ?k))"
    by blast
  then show ?case
  proof cases
    case fail
    from merge_cusps_advance [OF jlt fail] res
    have res': "merge_cusps (j + 1) cs = Some (Inr out)" by simp
    show ?thesis
    proof (cases "Suc j < length cs")
      case True
      then have e: "?k = Suc j" by simp
      from scan_inv_advance [OF c inv True fail [unfolded e]]
      have "scan_inv ps i (j + 1) cs" by simp
      with "1.IH"(2) [OF jlt fail refl refl] True res' show ?thesis by simp
    next
      case False
      with jlt have e: "Suc j = length cs" by simp
      then have k0: "?k = 0" by simp
      from e res' have "out = cs" by (subst (asm) merge_cusps.simps) simp
      with wrap_fail_stable [OF inv e fail [unfolded k0]] show ?thesis by simp
    qed
  next
    case merged
    let ?cs = "pop j (cs[?k := other'])"
    from merge_cusps_merged [OF jlt merged(1)] res
    have res': "merge_cusps j ?cs = Some (Inr out)" by simp
    from jlt have len: "length ?cs = length cs - 1" by (simp add: length_pop)
    show ?thesis
    proof (cases "Suc j < length cs")
      case True
      then have e: "?k = Suc j" by simp
      from scan_inv_merged [OF inv True merged(2) merged(3) [unfolded e]]
      have "scan_inv ps i j ?cs" unfolding e .
      moreover from True len have "j < length ?cs" by simp
      ultimately show ?thesis
        using "1.IH"(1) [OF jlt merged(1) refl refl] res' by simp
    next
      case False
      with jlt have e: "Suc j = length cs" by simp
      then have k0: "?k = 0" by simp
      from e len have l: "length ?cs = j" by simp
      have "merge_cusps j ?cs = Some (Inr ?cs)"
        by (subst merge_cusps.simps) (simp only: l less_irrefl if_False)
      with res' have out: "out = ?cs" by simp
      show ?thesis
      proof (cases "2 \<le> j")
        case True
        from wrap_merged_stable [OF inv e True merged(2)] merged(3) out show ?thesis
          unfolding k0 by simp
      next
        case False
        with out l show ?thesis by simp
      qed
    qed
  qed
qed

lemma detect_cusps_scan_inv:
  assumes "i < length ps"
    and "detect_cusps ps i = Inr cusps"
  shows "scan_inv ps i 0 cusps"
proof -
  let ?js = "filter (\<lambda>j. \<bar>turning_angle (ps ! i) j\<bar> > MIN_CUSP_ANGLE) [0..<length (ps ! i)]"
  from assms have cusps: "cusps = map (vertex_cusp ps i) ?js"
    by (simp add: detect_cusps_eq)
  have ok: "cusp_ok ps i c" if "c \<in> set cusps" for c
    using detect_cusps_on_path [OF assms(2) that]
    by (auto simp: cusp_ok_def vertex_cusp_def)
  have "sorted_wrt (<) ?js"
    by (rule sorted_wrt_filter) (rule sorted_wrt_upt)
  then have "?js ! a < ?js ! b" if "a < b" "b < length ?js" for a b
    using that by (simp add: sorted_wrt_iff_nth_less)
  then have "snd (index (cusps ! a)) < snd (index (cusps ! b))" if "a < b" "b < length cusps" for a b
    using that unfolding cusps by (simp add: vertex_cusp_def)
  with ok show ?thesis by (simp add: scan_inv_def)
qed

text \<open>
  On a contiguous sub-path, the list that the merging loop returns for the cusps found by
  the first loop is returned unchanged by a second run, unless it consists of exactly one
  cusp.
\<close>

lemma merge_cusps_stable:
  assumes "i < length ps"
    and "contiguous (ps ! i)"
    and "detect_cusps ps i = Inr cusps"
    and "merge_cusps 0 cusps = Some (Inr out)"
    and "length out \<noteq> 1"
  shows "merge_cusps 0 out = Some (Inr out)"
proof (cases "cusps = []")
  case True
  with assms(4) have "out = []" by (subst (asm) merge_cusps.simps) simp
  then show ?thesis by (subst merge_cusps.simps) simp
next
  case False
  from merge_cusps_stable_aux [OF assms(2) detect_cusps_scan_inv [OF assms(1,3)] _ assms(4)] False
  have "stable out \<or> length out \<le> 1" by simp
  with assms(5) have "stable out \<or> out = []" by (cases out) auto
  then show ?thesis
  proof
    assume "stable out"
    then show ?thesis by (rule stable_merge_cusps)
  next
    assume "out = []"
    then show ?thesis by (subst merge_cusps.simps) simp
  qed
qed

section \<open>The examples\<close>

subsection \<open>Evaluating points, lengths and angles\<close>

lemma Complex_diff: "Complex a b - Complex c d = Complex (a - c) (b - d)"
  by (simp add: complex_eq_iff)

lemma cmod_le_iff: "0 \<le> c \<Longrightarrow> cmod (Complex a b) \<le> c \<longleftrightarrow> a * a + b * b \<le> c * c"
  unfolding cmod_def power2_eq_square [symmetric] complex.sel
  by (metis real_sqrt_le_iff real_sqrt_abs abs_of_nonneg)

lemma cmod_gt_iff: "0 \<le> c \<Longrightarrow> cmod (Complex a b) > c \<longleftrightarrow> a * a + b * b > c * c"
  using cmod_le_iff [of c a b] by auto

lemma cmod_eqI: "0 \<le> c \<Longrightarrow> a * a + b * b = c * c \<Longrightarrow> cmod (Complex a b) = c"
  unfolding cmod_def power2_eq_square [symmetric] complex.sel
  by (metis real_sqrt_abs abs_of_nonneg)

lemmas angle_simps =
  get_angle_def atan2_def c_quot_def float_of_def fadd_def fsub_def fmul_def fdiv_def Let_def
  complex_eq_iff Complex_diff arctan_one arctan_minus

subsection \<open>The half disc\<close>

lemma arch_turning:
  "turning_angle ex_arch 0 = - (pi / 2)"
  "turning_angle ex_arch (Suc 0) = 0"
  "turning_angle ex_arch 2 = - (pi / 2)"
  by (simp_all add: turning_angle_def tangent_in_def tangent_out_def ex_arch_def angle_simps)

lemma arch_vertex:
  "vertex_cusp [ex_arch] 0 0 = arch_c0"
  "vertex_cusp [ex_arch] 0 2 = arch_c2"
  unfolding vertex_cusp_def arch_c0_def arch_c2_def nth_Cons_0 arch_turning
  by (simp_all add: tangent_in_def tangent_out_def ex_arch_def Complex_diff)

lemma arch_detect: "detect_cusps [ex_arch] 0 = Inr [arch_c0, arch_c2]"
proof -
  have "[0..<length ex_arch] = [0, Suc 0, 2]"
    by (simp add: ex_arch_def upt_conv_Cons)
  then show ?thesis
    by (simp add: detect_cusps_eq arch_turning arch_vertex MIN_CUSP_ANGLE_def)
qed


lemma arch_on_path: "on_path [ex_arch] 0 arch_c0" "on_path [ex_arch] 0 arch_c2"
  "on_path [ex_arch] 0 arch_merged"
  by (simp_all add: on_path_def arch_c0_def arch_c2_def arch_merged_def ex_arch_def)

lemma cmod_13: "cmod (Complex (- 5) 12) = 13" "cmod (Complex (- 5) (- 12)) = 13"
  by (rule cmod_eqI, simp, simp)+

lemma cmod_10: "cmod (Complex 10 0) = 10"
  by (rule cmod_eqI) simp_all

lemma arch_indices: "arc_indices 3 0 2 = [1, 2]" "arc_indices 3 2 0 = [0]"
  by (simp_all add: arc_indices_def upt_conv_Cons)

lemma arch_arc: "arc_length ex_arch 0 2 = 26" "arc_length ex_arch 2 0 = 10"
proof -
  have n: "length ex_arch = 3" by (simp add: ex_arch_def)
  have c: "chord (ex_arch ! 0) = 10" "chord (ex_arch ! Suc 0) = 13" "chord (ex_arch ! 2) = 13"
    by (simp_all add: ex_arch_def chord_def Complex_diff cmod_13 cmod_10)
  show "arc_length ex_arch 0 2 = 26" "arc_length ex_arch 2 0 = 10"
    unfolding arc_length_def n arch_indices by (simp_all add: c)
qed

lemma arch_merge_forward: "merge arch_c0 arch_c2 = Some (Inr (False, arch_c2))"
proof -
  have w: "merge_walk ex_arch 0 2 0 = Some (Inr (0 + arc_length ex_arch 0 2))"
    by (rule merge_walk_arc) (simp_all add: ex_arch_def)
  have d: "\<not> cmod (Complex (- 10) 0) > 15"
    by (simp add: cmod_gt_iff)
  show ?thesis
    by (simp add: merge_def arch_c0_def arch_c2_def w arch_arc MAX_CUSP_MERGE_DISTANCE_def
          Complex_diff d)
qed

lemma arch_merge_back: "merge arch_c2 arch_c0 = Some (Inr (True, arch_merged))"
proof -
  have w: "merge_walk ex_arch 2 0 0 = Some (Inr (0 + arc_length ex_arch 2 0))"
    by (rule merge_walk_arc) (simp_all add: ex_arch_def)
  have d: "\<not> cmod (Complex 10 0) > 15"
    by (simp add: cmod_gt_iff)
  have a: "get_angle (Complex 0 (- 12)) (Complex 0 12) = - pi"
    by (simp add: angle_simps)
  show ?thesis
    by (simp add: merge_def arch_c0_def arch_c2_def arch_merged_def w arch_arc
          MAX_CUSP_MERGE_DISTANCE_def Complex_diff d a)
qed

lemma arch_merge_self: "merge arch_merged arch_merged = Some (Inr (True, arch_merged))"
proof -
  have w: "merge_walk ex_arch 0 0 0 = Some (Inr 0)"
    by (subst merge_walk.simps) simp
  have a: "get_angle (Complex 0 (- 12)) (Complex 0 12) = - pi"
    by (simp add: angle_simps)
  show ?thesis
    by (simp add: merge_def arch_merged_def w MAX_CUSP_MERGE_DISTANCE_def a)
qed

lemma arch_merge_cusps: "merge_cusps 0 [arch_c0, arch_c2] = Some (Inr [arch_merged])"
  apply (subst merge_cusps.simps)
  apply (simp add: arch_merge_forward)
  apply (subst merge_cusps.simps)
  apply (simp add: arch_merge_back pop_def)
  apply (subst merge_cusps.simps)
  apply simp
  done

lemma arch_merge_cusps_again: "merge_cusps 0 [arch_merged] = Some (Inr [])"
proof -
  have "merge_cusps 0 [arch_merged] = merge_cusps 0 (pop 0 ([arch_merged][(0 + 1) mod length [arch_merged] := arch_merged]))"
    by (rule merge_cusps_merged) (simp_all add: arch_merge_self)
  also have "\<dots> = Some (Inr [])"
    by (subst merge_cusps.simps) (simp add: pop_def)
  finally show ?thesis .
qed

lemma arch_break: "break_path ex_arch = Inr [ex_arch]"
  by (simp add: break_path_def ex_arch_def break_step_def)

lemma arch_get_cusps: "get_cusps [ex_arch] = Some (Inr [arch_merged])"
  by (simp add: get_cusps_def get_cusps_step_def arch_detect arch_merge_cusps)


subsection \<open>The leaf\<close>

lemma leaf_turning:
  "turning_angle ex_leaf 0 = 0"
  "turning_angle ex_leaf (Suc 0) = - (pi / 2)"
  by (simp_all add: turning_angle_def tangent_in_def tangent_out_def ex_leaf_def angle_simps)

lemma leaf_vertex: "vertex_cusp [ex_leaf] 0 (Suc 0) = leaf_tip"
  unfolding vertex_cusp_def leaf_tip_def nth_Cons_0 leaf_turning
  by (simp add: tangent_in_def tangent_out_def ex_leaf_def Complex_diff)

lemma leaf_detect: "detect_cusps [ex_leaf] 0 = Inr [leaf_tip]"
proof -
  have "[0..<length ex_leaf] = [0, Suc 0]"
    by (simp add: ex_leaf_def upt_conv_Cons)
  then show ?thesis
    by (simp add: detect_cusps_eq leaf_turning leaf_vertex MIN_CUSP_ANGLE_def)
qed

text \<open>The leaf has one cusp, its tip, and the merging loop removes it (claim C4).\<close>

theorem single_cusp_removed_witness:
  "detect_cusps [ex_leaf] 0 = Inr [leaf_tip] \<and>
   merge leaf_tip leaf_tip = Some (Inr (True, leaf_tip)) \<and>
   merge_cusps 0 [leaf_tip] = Some (Inr [])"
  using single_cusp_removed [OF leaf_detect] leaf_detect by simp

subsection \<open>The properties on the half disc\<close>

text \<open>The first loop finds the two cusps at the ends of the base (claim C5).\<close>

theorem detect_cusps_exact_witness:
  "(0::nat) < length [ex_arch] \<and>
   detect_cusps [ex_arch] 0 = Inr [arch_c0, arch_c2] \<and>
   map index [arch_c0, arch_c2] =
     map (Pair 0)
       (filter (\<lambda>j. \<bar>turning_angle ([ex_arch] ! 0) j\<bar> > 0.1 * pi) [0..<length ([ex_arch] ! 0)]) \<and>
   angle arch_c0 = turning_angle ([ex_arch] ! 0) (snd (index arch_c0))"
proof -
  have h: "(0::nat) < length [ex_arch]" by simp
  from detect_cusps_exact [OF h] show ?thesis
    unfolding arch_detect by auto
qed

text \<open>
  The cusp at the end of the base is merged into the cusp at its start, 10 away along the
  base (claim C8).
\<close>

theorem merge_cusps_bounds_witness:
  "on_path [ex_arch] 0 arch_c0 \<and> on_path [ex_arch] 0 arch_c2 \<and>
   merge_cusps 0 [arch_c0, arch_c2] = Some (Inr [arch_merged]) \<and>
   length [arch_merged] \<le> length [arch_c0, arch_c2] \<and>
   merge arch_c2 arch_c0 = Some (Inr (True, arch_merged)) \<and>
   cmod (point arch_c0 - point arch_c2) \<le> 15 \<and>
   arc_length ([ex_arch] ! 0) (snd (index arch_c2)) (snd (index arch_c0)) \<le> 15"
proof -
  have h: "\<forall>c \<in> set [arch_c0, arch_c2]. on_path [ex_arch] 0 c"
    by (simp add: arch_on_path)
  from merge_cusps_bounds [OF h] arch_on_path arch_merge_back
  have "cmod (point arch_c0 - point arch_c2) \<le> 15 \<and>
        arc_length ([ex_arch] ! 0) (snd (index arch_c2)) (snd (index arch_c0)) \<le> 15"
    by blast
  with arch_on_path arch_merge_cusps arch_merge_back show ?thesis by simp
qed

text \<open>
  The merging loop on the two cusps: the first round fails and advances, the second
  merges and shortens the list (claim C10).
\<close>

theorem merge_cusps_terminates_witness:
  "on_path [ex_arch] 0 arch_c0 \<and> on_path [ex_arch] 0 arch_c2 \<and>
   merge_cusps 0 [arch_c0, arch_c2] = Some (Inr [arch_merged]) \<and>
   merge_rounds 0 [arch_c0, arch_c2] \<le> length [arch_c0, arch_c2] \<and>
   merge ([arch_c0, arch_c2] ! 0) ([arch_c0, arch_c2] ! ((0 + 1) mod length [arch_c0, arch_c2])) =
     Some (Inr (False, arch_c2)) \<and>
   merge_cusps 0 [arch_c0, arch_c2] = merge_cusps (0 + 1) [arch_c0, arch_c2] \<and>
   merge ([arch_c0, arch_c2] ! 1) ([arch_c0, arch_c2] ! ((1 + 1) mod length [arch_c0, arch_c2])) =
     Some (Inr (True, arch_merged)) \<and>
   merge_cusps 1 [arch_c0, arch_c2] =
     merge_cusps 1 (pop 1 ([arch_c0, arch_c2][(1 + 1) mod length [arch_c0, arch_c2] := arch_merged])) \<and>
   length (pop 1 ([arch_c0, arch_c2][(1 + 1) mod length [arch_c0, arch_c2] := arch_merged])) <
     length [arch_c0, arch_c2]"
proof -
  have h: "\<forall>c \<in> set [arch_c0, arch_c2]. on_path [ex_arch] 0 c"
    by (simp add: arch_on_path)
  have f: "merge ([arch_c0, arch_c2] ! 0) ([arch_c0, arch_c2] ! ((0 + 1) mod length [arch_c0, arch_c2])) =
     Some (Inr (False, arch_c2))"
    by (simp add: arch_merge_forward)
  have b: "merge ([arch_c0, arch_c2] ! 1) ([arch_c0, arch_c2] ! ((1 + 1) mod length [arch_c0, arch_c2])) =
     Some (Inr (True, arch_merged))"
    by (simp add: arch_merge_back)
  have l0: "(0::nat) < length [arch_c0, arch_c2]" and l1: "(1::nat) < length [arch_c0, arch_c2]"
    by simp_all
  note t = merge_cusps_terminates [OF h]
  from t have r: "merge_rounds 0 [arch_c0, arch_c2] \<le> length [arch_c0, arch_c2]" by blast
  from t l0 f have a: "merge_cusps 0 [arch_c0, arch_c2] = merge_cusps (0 + 1) [arch_c0, arch_c2]"
    by blast
  from t l1 b have m: "merge_cusps 1 [arch_c0, arch_c2] =
     merge_cusps 1 (pop 1 ([arch_c0, arch_c2][(1 + 1) mod length [arch_c0, arch_c2] := arch_merged])) \<and>
   length (pop 1 ([arch_c0, arch_c2][(1 + 1) mod length [arch_c0, arch_c2] := arch_merged])) <
     length [arch_c0, arch_c2]"
    by blast
  from arch_on_path arch_merge_cusps r f a b m show ?thesis by blast
qed

text \<open>
  Claim C2. The merging loop is not idempotent. On the half disc it returns a list of one
  cusp, and run again on that list it merges the cusp with itself and returns the empty
  list.
\<close>

theorem merge_cusps_not_idempotent:
  "break_path ex_arch = Inr [ex_arch] \<and>
   detect_cusps [ex_arch] 0 = Inr [arch_c0, arch_c2] \<and>
   merge_cusps 0 [arch_c0, arch_c2] = Some (Inr [arch_merged]) \<and>
   merge_cusps 0 [arch_merged] = Some (Inr []) \<and>
   [] \<noteq> [arch_merged]"
  by (simp add: arch_break arch_detect arch_merge_cusps arch_merge_cusps_again)

subsection \<open>The two triangles\<close>

lemma tips_break: "break_path ex_tips = Inr tips_paths"
  by (simp add: break_path_def ex_tips_def tips_paths_def break_step_def complex_eq_iff)

lemma tips_path_0: "tips_paths ! 0 = [Line (Complex (- 100) 100) (Complex 0 0),
      Line (Complex 0 0) (Complex (- 100) (- 100)),
      Line (Complex (- 100) (- 100)) (Complex (- 100) 100)]"
  by (simp add: tips_paths_def ex_tips_def)

lemma tips_path_1: "tips_paths ! Suc 0 = [Line (Complex 110 (- 100)) (Complex 10 0),
      Line (Complex 10 0) (Complex 110 100),
      Line (Complex 110 100) (Complex 110 (- 100))]"
  by (simp add: tips_paths_def ex_tips_def)

lemma tips_turning_0:
  "turning_angle (tips_paths ! 0) 0 = pi / 2"
  "turning_angle (tips_paths ! 0) (Suc 0) = 3 * pi / 4"
  "turning_angle (tips_paths ! 0) 2 = 3 * pi / 4"
  unfolding tips_path_0
  by (simp_all add: turning_angle_def tangent_in_def tangent_out_def angle_simps)

lemma tips_turning_1:
  "turning_angle (tips_paths ! Suc 0) 0 = pi / 2"
  "turning_angle (tips_paths ! Suc 0) (Suc 0) = 3 * pi / 4"
  "turning_angle (tips_paths ! Suc 0) 2 = 3 * pi / 4"
  unfolding tips_path_1
  by (simp_all add: turning_angle_def tangent_in_def tangent_out_def angle_simps)


lemmas tips_defs =
  tip_a_def tips_a1_def tips_a2_def tip_b_def tips_b1_def tips_b2_def tips_cusp_def

lemma tips_vertex_0:
  "[vertex_cusp tips_paths 0 0, vertex_cusp tips_paths 0 (Suc 0), vertex_cusp tips_paths 0 2] =
     [tip_a, tips_a1, tips_a2]"
  unfolding vertex_cusp_def tips_turning_0
  by (simp add: tips_path_0 tips_defs tangent_in_def tangent_out_def Complex_diff)

lemma tips_vertex_1:
  "[vertex_cusp tips_paths (Suc 0) 0, vertex_cusp tips_paths (Suc 0) (Suc 0),
    vertex_cusp tips_paths (Suc 0) 2] = [tip_b, tips_b1, tips_b2]"
  unfolding vertex_cusp_def tips_turning_1
  by (simp add: tips_path_1 tips_defs tangent_in_def tangent_out_def Complex_diff)

lemma tips_detect_0: "detect_cusps tips_paths 0 = Inr [tip_a, tips_a1, tips_a2]"
proof -
  have "[0..<length (tips_paths ! 0)] = [0, Suc 0, 2]"
    by (simp add: tips_path_0 upt_conv_Cons)
  moreover have "0 < length tips_paths" by (simp add: tips_paths_def)
  ultimately show ?thesis
    unfolding tips_vertex_0 [symmetric]
    by (simp add: detect_cusps_eq tips_turning_0 MIN_CUSP_ANGLE_def)
qed

lemma tips_detect_1: "detect_cusps tips_paths (Suc 0) = Inr [tip_b, tips_b1, tips_b2]"
proof -
  have "[0..<length (tips_paths ! Suc 0)] = [0, Suc 0, 2]"
    by (simp add: tips_path_1 upt_conv_Cons)
  moreover have "Suc 0 < length tips_paths" by (simp add: tips_paths_def)
  ultimately show ?thesis
    unfolding tips_vertex_1 [symmetric]
    by (simp add: detect_cusps_eq tips_turning_1 MIN_CUSP_ANGLE_def)
qed

text \<open>Cusps that are far apart are not merged.\<close>

lemma merge_far:
  assumes "fst (index other) = fst (index self)"
    and "cmod (point other - point self) > MAX_CUSP_MERGE_DISTANCE"
  shows "merge self other = Some (Inr (False, other))"
  using assms by (simp add: merge_def)

lemma merge_cusps_all_far:
  assumes "merge c0 c1 = Some (Inr (False, c1))"
    and "merge c1 c2 = Some (Inr (False, c2))"
    and "merge c2 c0 = Some (Inr (False, c0))"
  shows "merge_cusps 0 [c0, c1, c2] = Some (Inr [c0, c1, c2])"
  apply (subst merge_cusps.simps)
  apply (simp add: assms)
  apply (subst merge_cusps.simps)
  apply (simp add: assms)
  apply (subst merge_cusps.simps)
  apply (simp add: assms)
  apply (subst merge_cusps.simps)
  apply simp
  done

lemmas tips_simps =
  tips_defs MAX_CUSP_MERGE_DISTANCE_def MAX_CROSSING_DISTANCE_def Complex_diff cmod_gt_iff

lemma tips_merge_0: "merge_cusps 0 [tip_a, tips_a1, tips_a2] = Some (Inr [tip_a, tips_a1, tips_a2])"
  by (rule merge_cusps_all_far; rule merge_far; simp add: tips_simps)

lemma tips_merge_1: "merge_cusps 0 [tip_b, tips_b1, tips_b2] = Some (Inr [tip_b, tips_b1, tips_b2])"
  by (rule merge_cusps_all_far; rule merge_far; simp add: tips_simps)

lemma tips_get_cusps: "get_cusps tips_paths = Some (Inr tips_cusps)"
proof -
  have "[0..<length tips_paths] = [0, Suc 0]"
    by (simp add: tips_paths_def upt_conv_Cons)
  then show ?thesis
    by (simp add: get_cusps_def get_cusps_step_def tips_detect_0 tips_detect_1
          tips_merge_0 tips_merge_1 tips_cusps_def)
qed


text \<open>The two tips are connected, in both directions, in the forward orientation.\<close>

lemma tip_features_ab:
  "get_angle (tangent1 tip_a) (point tip_b - point tip_a) = - (pi / 4)"
  "get_angle (point tip_b - point tip_a) (tangent2 tip_b) = - (pi / 4)"
  "get_angle (point tip_b - point tip_a) (tangent2 tip_a) = 3 * pi / 4"
  "get_angle (tangent1 tip_b) (point tip_b - point tip_a) = 3 * pi / 4"
  by (simp_all add: tips_defs angle_simps)

lemma tip_features_ba:
  "get_angle (tangent1 tip_b) (point tip_a - point tip_b) = - (pi / 4)"
  "get_angle (point tip_a - point tip_b) (tangent2 tip_a) = - (pi / 4)"
  "get_angle (point tip_a - point tip_b) (tangent2 tip_b) = 3 * pi / 4"
  "get_angle (tangent1 tip_a) (point tip_a - point tip_b) = 3 * pi / 4"
  by (simp_all add: tips_defs angle_simps)

lemma tip_near:
  "point tip_b \<noteq> point tip_a"
  "\<not> cmod (point tip_b - point tip_a) > MAX_CROSSING_DISTANCE"
  "\<not> cmod (point tip_a - point tip_b) > MAX_CROSSING_DISTANCE"
  by (simp_all add: tips_simps complex_eq_iff)

lemma tip_try_ab: "try_connect tip_a tip_b False"
  using tip_near by (simp add: try_connect_def Let_def tip_features_ab)

lemma tip_try_ba: "try_connect tip_b tip_a False"
  using tip_near by (simp add: try_connect_def Let_def tip_features_ba)

lemma tip_connect: "connect tip_a tip_b" "connect tip_b tip_a"
  using tip_try_ab tip_try_ba by (simp_all add: connect_def tips_defs)

lemma connect_same: "index other = index self \<Longrightarrow> connect self other = False"
  by (simp add: connect_def)

lemma connect_far:
  "cmod (point other - point self) > MAX_CROSSING_DISTANCE \<Longrightarrow> connect self other = False"
  using connect_near [of self other] by auto


text \<open>All other pairs of cusps are more than 64 apart.\<close>

lemma tips_index:
  "index tip_a = (0, 0)" "index tips_a1 = (0, 1)" "index tips_a2 = (0, 2)"
  "index tip_b = (1, 0)" "index tips_b1 = (1, 1)" "index tips_b2 = (1, 2)"
  by (simp_all add: tips_defs)

lemma tips_point:
  "point tip_a = Complex 0 0" "point tips_a1 = Complex (- 100) (- 100)"
  "point tips_a2 = Complex (- 100) 100" "point tip_b = Complex 10 0"
  "point tips_b1 = Complex 110 100" "point tips_b2 = Complex 110 (- 100)"
  by (simp_all add: tips_defs)

lemmas tips_connect_simps =
  connect_same connect_far tips_index tips_point MAX_CROSSING_DISTANCE_def Complex_diff
  cmod_gt_iff

lemma tips_rows:
  "filter (connect tip_a) tips_cusps = [tip_b]"
  "filter (connect tips_a1) tips_cusps = []"
  "filter (connect tips_a2) tips_cusps = []"
  "filter (connect tip_b) tips_cusps = [tip_a]"
  "filter (connect tips_b1) tips_cusps = []"
  "filter (connect tips_b2) tips_cusps = []"
  unfolding tips_cusps_def by (simp_all add: tips_connect_simps tip_connect)

lemma tips_lines: "add_lines tips_cusps [] = [line_tag 0 0 10 0, line_tag 10 0 0 0]"
proof -
  have "add_lines tips_cusps [] =
    concat (map (\<lambda>c. map (line_of c) (filter (connect c) tips_cusps)) tips_cusps)"
    unfolding add_lines_eq product_lines by simp
  also have "\<dots> = [line_of tip_a tip_b, line_of tip_b tip_a]"
    by (subst (2) tips_cusps_def) (simp add: tips_rows)
  also have "\<dots> = [line_tag 0 0 10 0, line_tag 10 0 0 0]"
    by (simp add: line_of_def tips_point py_int_def)
  finally show ?thesis .
qed


lemma tips_augment:
  "augment_glyph ex_tips =
     Some (Inr (map circle_of tips_cusps @ [line_tag 0 0 10 0, line_tag 10 0 0 0]))"
proof -
  have f: "filter (\<lambda>element. seg_start element \<noteq> seg_end element) ex_tips = ex_tips"
    by (simp add: ex_tips_def complex_eq_iff)
  have n: "ex_tips \<noteq> []" by (simp add: ex_tips_def)
  have c: "add_circles cusps [] = map circle_of cusps" for cusps
    unfolding add_circles_def using foldl_append_concat [of "\<lambda>c. [circle_of c]" "[]" cusps]
    by (simp add: concat_map_singleton)
  have l: "add_lines cusps result = result @ add_lines cusps []" for cusps result
    by (simp add: add_lines_eq)
  show ?thesis
    unfolding augment_glyph_def f Let_def
    by (simp add: n tips_break tips_get_cusps c l [of tips_cusps "map circle_of tips_cusps"]
          tips_lines)
qed

subsection \<open>The properties on the two triangles\<close>

text \<open>
  Claim C1 fails as it is stated. For the two triangles \<^verbatim>\<open>augment_glyph\<close> returns two
  lines between the tips, one from each tip to the other: the unordered pair of the two
  points occurs twice among the lines.
\<close>

theorem add_lines_once_counterexample:
  "augment_glyph ex_tips =
     Some (Inr (map circle_of tips_cusps @ [line_tag 0 0 10 0, line_tag 10 0 0 0])) \<and>
   add_lines tips_cusps [] = [line_tag 0 0 10 0, line_tag 10 0 0 0] \<and>
   line_ends (line_tag 0 0 10 0) = line_ends (line_tag 10 0 0 0) \<and>
   \<not> distinct (map line_ends (add_lines tips_cusps []))"
  by (auto simp: tips_augment tips_lines)

text \<open>The amended claim C1 on the cusps of the two triangles.\<close>

theorem add_lines_ordered_pairs_witness:
  "add_lines tips_cusps [] =
     map (\<lambda>(c, other). line_of c other)
       (filter (\<lambda>(c, other). connect c other) (List.product tips_cusps tips_cusps)) \<and>
   connect tip_a tip_b \<and> index tip_a \<noteq> index tip_b \<and>
   (try_connect tip_a tip_b False \<or>
    fst (index tip_a) \<noteq> fst (index tip_b) \<and> try_connect tip_a tip_b True)"
  using add_lines_ordered_pairs [of tips_cusps tip_a tip_b] tip_connect by simp

text \<open>The forward test from one tip to the other (claim C3).\<close>

theorem try_connect_iff_witness:
  "index tip_a \<noteq> index tip_b \<and>
   0 < cmod (point tip_b - point tip_a) \<and>
   cmod (point tip_b - point tip_a) \<le> MAX_CROSSING_DISTANCE \<and>
   try_connect tip_a tip_b False \<and>
   (let diff = point tip_b - point tip_a;
        f0 = get_angle (tangent1 tip_a) diff;
        f1 = get_angle diff (if False then tangent1 tip_b else tangent2 tip_b);
        f2 = get_angle diff (tangent2 tip_a);
        f3 = get_angle (if False then tangent2 tip_b else tangent1 tip_b) diff
    in sgn f2 = sgn f3 \<and> \<bar>f0\<bar> < 0.3 * pi \<and> \<bar>f1\<bar> < 0.3 * pi \<and>
       \<bar>f2\<bar> > 0.3 * pi \<and> \<bar>f3\<bar> > 0.3 * pi)"
proof -
  have h1: "index tip_a \<noteq> index tip_b" by (simp add: tips_index)
  have h2: "0 < cmod (point tip_b - point tip_a)" using tip_near(1) by simp
  have h3: "cmod (point tip_b - point tip_a) \<le> MAX_CROSSING_DISTANCE"
    using tip_near(2) by simp
  from try_connect_iff [OF h1 h2 h3, of False] tip_try_ab h1 h2 h3 show ?thesis by blast
qed

text \<open>
  The two tips lie on different sub-paths; a tip and the next cusp of its triangle lie on
  the same sub-path (claim C6).
\<close>

theorem connect_orientations_witness:
  "index tip_a \<noteq> index tip_b \<and> fst (index tip_a) \<noteq> fst (index tip_b) \<and>
   connect tip_a tip_b = (try_connect tip_a tip_b False \<or> try_connect tip_a tip_b True) \<and>
   try_connect tip_a tip_b True = try_connect tip_a (swap_tangents tip_b) False \<and>
   index tip_a \<noteq> index tips_a1 \<and> fst (index tip_a) = fst (index tips_a1) \<and>
   connect tip_a tips_a1 = try_connect tip_a tips_a1 False"
proof -
  have h1: "index tip_a \<noteq> index tip_b" and h2: "index tip_a \<noteq> index tips_a1"
    by (simp_all add: tips_index)
  from connect_orientations [OF h1] connect_orientations [OF h2] h1 h2 show ?thesis
    by (simp add: tips_index)
qed

text \<open>
  The line between the tips comes from two cusps with different indices, 10 apart; the
  first tip and the far corner of the other triangle are 110 apart (claim C9).
\<close>

theorem connector_excludes_witness:
  "connect tip_a tip_b \<and> index tip_a \<noteq> index tip_b \<and>
   cmod (point tip_b - point tip_a) \<le> 64 \<and>
   cmod (point tips_b1 - point tip_a) > 64 \<and> \<not> try_connect tip_a tips_b1 True \<and>
   line_tag 0 0 10 0 \<in> set (add_lines tips_cusps []) \<and>
   (\<exists>a \<in> set tips_cusps. \<exists>b \<in> set tips_cusps.
      line_tag 0 0 10 0 = line_of a b \<and> index a \<noteq> index b \<and>
      cmod (point b - point a) \<le> 64)"
proof -
  note t = connector_excludes [of tips_cusps]
  have far: "cmod (point tips_b1 - point tip_a) > 64"
    by (simp add: tips_point Complex_diff cmod_gt_iff)
  have l: "line_tag 0 0 10 0 \<in> set (add_lines tips_cusps [])"
    by (simp add: tips_lines)
  from t tip_connect(1) have "index tip_a \<noteq> index tip_b \<and> cmod (point tip_b - point tip_a) \<le> 64"
    by blast
  moreover from t far have "\<not> try_connect tip_a tips_b1 True" by blast
  moreover from t l have "\<exists>a \<in> set tips_cusps. \<exists>b \<in> set tips_cusps.
      line_tag 0 0 10 0 = line_of a b \<and> index a \<noteq> index b \<and>
      cmod (point b - point a) \<le> 64" by blast
  ultimately show ?thesis using tip_connect(1) far l by blast
qed

text \<open>The outline of the two triangles is broken into the two triangles (claim C7).\<close>

theorem break_path_partition_witness:
  "ex_tips \<noteq> [] \<and> break_path ex_tips = Inr tips_paths \<and> concat tips_paths = ex_tips \<and>
   take 3 ex_tips \<noteq> [] \<and> contiguous (take 3 ex_tips) \<and>
   drop 3 ex_tips \<noteq> [] \<and> contiguous (drop 3 ex_tips) \<and> separated tips_paths"
proof -
  have h: "ex_tips \<noteq> []" by (simp add: ex_tips_def)
  from break_path_partition [OF h] h show ?thesis
    unfolding tips_break by (simp add: tips_paths_def)
qed

end
